theory Spec2Isabelle
  imports Main "HOL-Library.Word" "HOL-Library.Sublist"
begin

unbundle bit_operations_syntax

section \<open>C strings and buffers\<close>

text \<open>
  A C string is the list of its bytes before the terminating NUL. A buffer that the code
  writes NUL bytes into is a \<open>char list\<close> read through \<open>peek\<close>, which returns NUL
  behind the last byte (the terminator), and through \<open>cstr\<close>, the string that starts at
  the head of the buffer.
\<close>

definition NUL :: char where
  "NUL = CHR 0x00"

definition peek :: "string \<Rightarrow> nat \<Rightarrow> char" where
  "peek s i = (if i < length s then s ! i else NUL)"

definition cstr :: "string \<Rightarrow> string" where
  "cstr s = takeWhile (\<lambda>c. c \<noteq> NUL) s"

definition strlen :: "string \<Rightarrow> nat" where
  "strlen s = length (cstr s)"

text \<open>\<open>strcmp(buf + p, t) == 0\<close>.\<close>

definition strcmp_eq :: "string \<Rightarrow> nat \<Rightarrow> string \<Rightarrow> bool" where
  "strcmp_eq buf p t = (cstr (drop p buf) = cstr t)"

text \<open>\<open>strncmp(a, b, n) == 0\<close> on C strings.\<close>

definition strncmp_eq :: "string \<Rightarrow> string \<Rightarrow> nat \<Rightarrow> bool" where
  "strncmp_eq a b n = (take n (cstr a) = take n (cstr b))"

definition CRLF :: string where
  "CRLF = [CHR 0x0D, CHR 0x0A]"

definition DQUOTE :: char where
  "DQUOTE = CHR 0x22"

section \<open>Platform constants and file metadata\<close>

text \<open>
  The mode bits of \<open>sys/stat.h\<close> and \<open>DT_DIR\<close> of \<open>dirent.h\<close> with their
  Linux values. \<open>struct stat\<close> keeps the fields the code reads.
\<close>

definition S_IFREG :: "32 word" where "S_IFREG = 0x8000"
definition S_IFDIR :: "32 word" where "S_IFDIR = 0x4000"
definition S_IROTH :: "32 word" where "S_IROTH = 0x4"
definition S_IXOTH :: "32 word" where "S_IXOTH = 0x1"
definition DT_DIR :: "8 word" where "DT_DIR = 4"

record stat =
  st_mode :: "32 word"
  st_ino :: int
  st_size :: int
  st_mtime :: int

record dirent =
  d_name :: string
  d_type :: "8 word"

section \<open>Requests, configuration and the outside world\<close>

datatype file_hdr =
  HDR_AUTHORIZATION
  | HDR_IF_MODIFIED_SINCE
  | HDR_IF_UNMODIFIED_SINCE
  | HDR_IF_MATCH
  | HDR_IF_NONE_MATCH
  | HDR_IF_RANGE

datatype http_method = UH_HTTP_MSG_GET | UH_HTTP_MSG_POST | UH_HTTP_MSG_HEAD

text \<open>
  What the code sends through functions of other files is recorded as a list of events,
  in the order of the calls: \<open>uh_http_header\<close>, \<open>ustream_printf\<close>, \<open>uh_chunk_printf\<close>,
  \<open>uh_chunk_write\<close> (with its length argument), \<open>uh_request_done\<close> and \<open>close\<close>.
  A list item of the directory index is recorded with the arguments
  of its format string.
\<close>

record list_item =
  li_path :: string
  li_name :: string
  li_suffix :: string
  li_modified :: string
  li_type :: string
  li_size :: int

datatype event =
  HttpHeader nat string
  | UstreamPrintf string
  | ChunkPrintf string
  | ChunkItem list_item
  | ChunkWrite int
  | RequestDone
  | Close int

record client =
  req_method :: http_method
  file_hdr :: "file_hdr \<Rightarrow> string option"
  data_bytes :: nat
  file_fd :: "int option"
  sent :: "event list"

record conf =
  docroot :: string
  no_symlinks :: bool

text \<open>
  The parts of the platform and of the other files of the server that \<open>file.c\<close> calls:
  \<open>PATH_MAX\<close>, the size of a pointer (\<open>sizeof(buf)\<close> for a \<open>char *buf\<close>), the size of
  \<open>uh_buf\<close>, \<open>uh_urldecode\<close> (\<open>None\<close> for a negative return, else the decoded bytes),
  \<open>realpath\<close> (\<open>None\<close> for NULL, \<open>realpath_failed\<close> is what the output buffer holds then),
  \<open>stat\<close>, \<open>strptime\<close> followed by \<open>timegm\<close>, \<open>gmtime\<close> followed by \<open>strftime\<close>,
  \<open>time(NULL)\<close>, the table \<open>uh_mime_types\<close> (extension, type), \<open>scandir\<close> with the
  comparison \<open>dirent_cmp\<close> applied (\<open>None\<close> for a negative count).
\<close>

record env =
  PATH_MAX :: nat
  sizeof_ptr :: nat
  sizeof_uh_buf :: nat
  uh_urldecode :: "int \<Rightarrow> string \<Rightarrow> string option"
  realpath :: "string \<Rightarrow> string option"
  realpath_failed :: "string \<Rightarrow> string"
  sys_stat :: "string \<Rightarrow> stat option"
  strptime_timegm :: "string \<Rightarrow> int option"
  strftime_gmt :: "int \<Rightarrow> string"
  time_now :: int
  uh_mime_types :: "(string \<times> string) list"
  scandir :: "string \<Rightarrow> dirent list option"

definition uh_http_header :: "nat \<Rightarrow> string \<Rightarrow> client \<Rightarrow> client" where
  "uh_http_header code summary cl = cl\<lparr>sent := sent cl @ [HttpHeader code summary]\<rparr>"

definition ustream_printf :: "string \<Rightarrow> client \<Rightarrow> client" where
  "ustream_printf s cl = cl\<lparr>sent := sent cl @ [UstreamPrintf s]\<rparr>"

definition uh_request_done :: "client \<Rightarrow> client" where
  "uh_request_done cl = cl\<lparr>sent := sent cl @ [RequestDone]\<rparr>"

definition sys_close :: "int \<Rightarrow> client \<Rightarrow> client" where
  "sys_close fd cl = cl\<lparr>sent := sent cl @ [Close fd]\<rparr>"

section \<open>Entity tags and dates\<close>

definition hex_digit :: "nat \<Rightarrow> char" where
  "hex_digit d = ''0123456789abcdef'' ! d"

function to_hex :: "nat \<Rightarrow> string" where
  "to_hex n = (if n < 16 then [hex_digit n] else to_hex (n div 16) @ [hex_digit (n mod 16)])"
  by pat_completeness auto
termination
  by (relation "measure id") auto

declare to_hex.simps [simp del]

text \<open>The cast \<open>(unsigned int) x\<close> followed by \<open>%x\<close>.\<close>

definition fmt_x :: "int \<Rightarrow> string" where
  "fmt_x x = to_hex (nat (x mod 2 ^ 32))"

text \<open>
  \<open>snprintf(buf, sizeof(buf), "\"%x-%x-%x\"", ...)\<close>: \<open>buf\<close> is a \<open>char *\<close>, so the size
  passed is the size of a pointer, and \<open>snprintf\<close> keeps one byte less than that.
\<close>

definition uh_file_mktag :: "env \<Rightarrow> stat \<Rightarrow> string" where
  "uh_file_mktag e s =
     take (sizeof_ptr e - 1)
       ([DQUOTE] @ fmt_x (st_ino s) @ ''-'' @ fmt_x (st_size s) @ ''-'' @ fmt_x (st_mtime s)
        @ [DQUOTE])"

definition uh_file_date2unix :: "env \<Rightarrow> string \<Rightarrow> int" where
  "uh_file_date2unix e date = (case strptime_timegm e date of Some t \<Rightarrow> t | None \<Rightarrow> 0)"

definition uh_file_unix2date :: "env \<Rightarrow> int \<Rightarrow> string" where
  "uh_file_unix2date e ts = strftime_gmt e ts"

definition uh_file_header :: "client \<Rightarrow> file_hdr \<Rightarrow> string option" where
  "uh_file_header cl idx = file_hdr cl idx"

definition uh_file_response_ok_hdrs :: "env \<Rightarrow> stat option \<Rightarrow> client \<Rightarrow> client" where
  "uh_file_response_ok_hdrs e s cl =
     (let cl1 = (case s of
                   None \<Rightarrow> cl
                 | Some st \<Rightarrow>
                     ustream_printf (''Last-Modified: '' @ uh_file_unix2date e (st_mtime st) @ CRLF)
                       (ustream_printf (''ETag: '' @ uh_file_mktag e st @ CRLF) cl))
      in ustream_printf (''Date: '' @ uh_file_unix2date e (time_now e) @ CRLF) cl1)"

definition uh_file_response_200 :: "env \<Rightarrow> stat option \<Rightarrow> client \<Rightarrow> client" where
  "uh_file_response_200 e s cl = uh_file_response_ok_hdrs e s (uh_http_header 200 ''OK'' cl)"

definition uh_file_response_304 :: "env \<Rightarrow> stat option \<Rightarrow> client \<Rightarrow> client" where
  "uh_file_response_304 e s cl =
     uh_file_response_ok_hdrs e s (uh_http_header 304 ''Not Modified'' cl)"

definition uh_file_response_412 :: "client \<Rightarrow> client" where
  "uh_file_response_412 cl = uh_http_header 412 ''Precondition Failed'' cl"

section \<open>Preconditions\<close>

lemma cstr_NUL_free: "NUL \<notin> set (cstr s)"
  by (auto simp: cstr_def dest: set_takeWhileD)

lemma cstr_id: "NUL \<notin> set s \<Longrightarrow> cstr s = s"
  by (induction s) (auto simp: cstr_def)

lemma strlen_NUL_free: "NUL \<notin> set hdr \<Longrightarrow> strlen hdr = length hdr"
  by (induction hdr) (auto simp: strlen_def cstr_def)

lemma strlen_update_NUL:
  assumes "i < strlen hdr"
  shows "strlen (hdr[i := NUL]) = i"
proof -
  have len: "i < length hdr"
    using assms length_takeWhile_le [of "\<lambda>c. c \<noteq> NUL" hdr]
    by (simp add: strlen_def cstr_def)
  have pre: "\<forall>c \<in> set (take i hdr). c \<noteq> NUL"
  proof
    fix c assume "c \<in> set (take i hdr)"
    then obtain j where j: "j < i" "c = hdr ! j"
      using len by (auto simp: in_set_conv_nth)
    with assms have jj: "j < length (takeWhile (\<lambda>c. c \<noteq> NUL) hdr)"
      by (simp add: strlen_def cstr_def)
    have "takeWhile (\<lambda>c. c \<noteq> NUL) hdr ! j = hdr ! j"
      using jj by (rule takeWhile_nth)
    moreover have "takeWhile (\<lambda>c. c \<noteq> NUL) hdr ! j \<in> set (takeWhile (\<lambda>c. c \<noteq> NUL) hdr)"
      using jj by simp
    ultimately show "c \<noteq> NUL"
      using j set_takeWhileD by metis
  qed
  have "hdr[i := NUL] = take i hdr @ NUL # drop (Suc i) hdr"
    using len by (simp add: upd_conv_take_nth_drop)
  then have "cstr (hdr[i := NUL]) = take i hdr"
    using pre by (simp add: cstr_def takeWhile_append2)
  then show ?thesis
    using len by (simp add: strlen_def)
qed

text \<open>
  The loop of \<open>uh_file_if_match\<close> over the header buffer: \<open>i\<close> is the index, \<open>p\<close> the
  offset of the pointer \<open>p\<close> in \<open>hdr\<close>. The condition \<open>i < strlen(hdr)\<close> is read again in
  every round, on the buffer as the rounds before have left it. The result is whether the
  loop returned true, and the buffer.
\<close>

function if_match_loop :: "string \<Rightarrow> string \<Rightarrow> nat \<Rightarrow> nat \<Rightarrow> bool \<times> string" where
  "if_match_loop tag hdr i p =
     (if i < strlen hdr then
        (if peek hdr i = CHR '' '' \<or> peek hdr i = CHR '','' then
           if_match_loop tag (hdr[i := NUL]) (i + 2) (i + 1)
         else if strcmp_eq hdr p ''*'' \<or> strcmp_eq hdr p tag then (True, hdr)
         else if_match_loop tag hdr (i + 1) p)
      else (False, hdr))"
  by pat_completeness auto
termination
proof (relation "measure (\<lambda>(tag, hdr, i, p). strlen hdr - i)")
  show "wf (measure (\<lambda>(tag, hdr, i, p). strlen hdr - i))" by simp
next
  fix tag hdr :: string and i p :: nat
  assume "i < strlen hdr"
  then show "((tag, hdr[i := NUL], i + 2, i + 1), tag, hdr, i, p)
       \<in> measure (\<lambda>(tag, hdr, i, p). strlen hdr - i)"
    by (simp add: strlen_update_NUL)
next
  fix tag hdr :: string and i p :: nat
  assume "i < strlen hdr"
  then show "((tag, hdr, i + 1, p), tag, hdr, i, p)
       \<in> measure (\<lambda>(tag, hdr, i, p). strlen hdr - i)"
    by simp
qed

declare if_match_loop.simps [simp del]

definition uh_file_if_match :: "env \<Rightarrow> stat \<Rightarrow> client \<Rightarrow> bool \<times> client" where
  "uh_file_if_match e s cl =
     (case uh_file_header cl HDR_IF_MATCH of
        None \<Rightarrow> (True, cl)
      | Some hdr \<Rightarrow>
          (case if_match_loop (uh_file_mktag e s) hdr 0 0 of
             (True, hdr') \<Rightarrow> (True, cl\<lparr>file_hdr := (file_hdr cl)(HDR_IF_MATCH \<mapsto> cstr hdr')\<rparr>)
           | (False, hdr') \<Rightarrow>
               (False,
                uh_file_response_412 (cl\<lparr>file_hdr := (file_hdr cl)(HDR_IF_MATCH \<mapsto> cstr hdr')\<rparr>))))"

definition uh_file_if_modified_since :: "env \<Rightarrow> stat \<Rightarrow> client \<Rightarrow> bool \<times> client" where
  "uh_file_if_modified_since e s cl =
     (case uh_file_header cl HDR_IF_MODIFIED_SINCE of
        None \<Rightarrow> (True, cl)
      | Some hdr \<Rightarrow>
          if uh_file_date2unix e hdr \<ge> st_mtime s
          then (False, uh_file_response_304 e (Some s) cl)
          else (True, cl))"

function if_none_match_loop :: "string \<Rightarrow> string \<Rightarrow> nat \<Rightarrow> nat \<Rightarrow> bool \<times> string" where
  "if_none_match_loop tag hdr i p =
     (if i < strlen hdr then
        (if peek hdr i = CHR '' '' \<or> peek hdr i = CHR '','' then
           if_none_match_loop tag (hdr[i := NUL]) (i + 2) (i + 1)
         else if strcmp_eq hdr p ''*'' \<or> strcmp_eq hdr p tag then (False, hdr)
         else if_none_match_loop tag hdr (i + 1) p)
      else (True, hdr))"
  by pat_completeness auto
termination
proof (relation "measure (\<lambda>(tag, hdr, i, p). strlen hdr - i)")
  show "wf (measure (\<lambda>(tag, hdr, i, p). strlen hdr - i))" by simp
next
  fix tag hdr :: string and i p :: nat
  assume "i < strlen hdr"
  then show "((tag, hdr[i := NUL], i + 2, i + 1), tag, hdr, i, p)
       \<in> measure (\<lambda>(tag, hdr, i, p). strlen hdr - i)"
    by (simp add: strlen_update_NUL)
next
  fix tag hdr :: string and i p :: nat
  assume "i < strlen hdr"
  then show "((tag, hdr, i + 1, p), tag, hdr, i, p)
       \<in> measure (\<lambda>(tag, hdr, i, p). strlen hdr - i)"
    by simp
qed

declare if_none_match_loop.simps [simp del]

definition uh_file_if_none_match :: "env \<Rightarrow> stat \<Rightarrow> client \<Rightarrow> bool \<times> client" where
  "uh_file_if_none_match e s cl =
     (case uh_file_header cl HDR_IF_NONE_MATCH of
        None \<Rightarrow> (True, cl)
      | Some hdr \<Rightarrow>
          (case if_none_match_loop (uh_file_mktag e s) hdr 0 0 of
             (True, hdr') \<Rightarrow>
               (True, cl\<lparr>file_hdr := (file_hdr cl)(HDR_IF_NONE_MATCH \<mapsto> cstr hdr')\<rparr>)
           | (False, hdr') \<Rightarrow>
               (let cl' = cl\<lparr>file_hdr := (file_hdr cl)(HDR_IF_NONE_MATCH \<mapsto> cstr hdr')\<rparr>
                in if req_method cl = UH_HTTP_MSG_GET \<or> req_method cl = UH_HTTP_MSG_HEAD
                   then (False, uh_file_response_304 e (Some s) cl')
                   else (False, uh_file_response_412 cl'))))"

definition uh_file_if_range :: "env \<Rightarrow> stat \<Rightarrow> client \<Rightarrow> bool \<times> client" where
  "uh_file_if_range e s cl =
     (case uh_file_header cl HDR_IF_RANGE of
        Some hdr \<Rightarrow> (False, uh_file_response_412 cl)
      | None \<Rightarrow> (True, cl))"

definition uh_file_if_unmodified_since :: "env \<Rightarrow> stat \<Rightarrow> client \<Rightarrow> bool \<times> client" where
  "uh_file_if_unmodified_since e s cl =
     (case uh_file_header cl HDR_IF_UNMODIFIED_SINCE of
        Some hdr \<Rightarrow>
          if uh_file_date2unix e hdr \<le> st_mtime s
          then (False, uh_file_response_412 cl)
          else (True, cl)
      | None \<Rightarrow> (True, cl))"


section \<open>MIME types\<close>

definition c_tolower :: "char \<Rightarrow> char" where
  "c_tolower c =
     (if 65 \<le> (of_char c :: nat) \<and> (of_char c :: nat) \<le> 90
      then char_of ((of_char c :: nat) + 32) else c)"

definition strcasecmp_eq :: "string \<Rightarrow> string \<Rightarrow> bool" where
  "strcasecmp_eq a b = (map c_tolower a = map c_tolower b)"

text \<open>
  The inner loop of \<open>uh_file_mime_lookup\<close>: \<open>e\<close> walks from the last byte of the path
  down to the first; \<open>Suc k\<close> is the offset of \<open>e + 1\<close>.
\<close>

fun mime_scan :: "string \<Rightarrow> string \<Rightarrow> nat \<Rightarrow> bool" where
  "mime_scan path extn 0 = False"
| "mime_scan path extn (Suc k) =
     (if (path ! k = CHR ''.'' \<or> path ! k = CHR ''/'') \<and> strcasecmp_eq (drop (Suc k) path) extn
      then True
      else mime_scan path extn k)"

fun mime_table :: "(string \<times> string) list \<Rightarrow> string \<Rightarrow> string" where
  "mime_table [] path = ''application/octet-stream''"
| "mime_table ((extn, mime) # ms) path =
     (if mime_scan path extn (length path) then mime else mime_table ms path)"

definition uh_file_mime_lookup :: "env \<Rightarrow> string \<Rightarrow> string" where
  "uh_file_mime_lookup e path = mime_table (uh_mime_types e) path"

section \<open>Streaming a file\<close>

text \<open>
  One call of \<open>read\<close> as the callback sees it: the return value, \<open>errno\<close>, and the number of
  bytes the output stream holds queued once \<open>uh_chunk_write\<close> has been called with what
  was read. The callback runs against the list of the calls to come. A function that can
  stop short returns a fault beside the client as it has left it: \<open>NoMoreReads\<close> says
  that the loop asked for a read behind the end of that list, \<open>NullPointer\<close> that a
  field that is NULL was read as a string; \<open>None\<close> says that the function returned.
\<close>

datatype errno = EINTR | EAGAIN | EIO | EBADF | EISDIR

datatype fault = NullPointer | NoMoreReads

record io_step =
  rd_ret :: int
  rd_errno :: errno
  queued_after :: nat

definition uh_chunk_write :: "int \<Rightarrow> nat \<Rightarrow> client \<Rightarrow> client" where
  "uh_chunk_write len queued cl = cl\<lparr>data_bytes := queued, sent := sent cl @ [ChunkWrite len]\<rparr>"

fun file_write_cb :: "io_step list \<Rightarrow> client \<Rightarrow> fault option \<times> client" where
  "file_write_cb [] cl = (if data_bytes cl < 256 then (Some NoMoreReads, cl) else (None, cl))"
| "file_write_cb (io # ios) cl =
     (if data_bytes cl < 256 then
        (if rd_ret io < 0 \<and> rd_errno io = EINTR then file_write_cb ios cl
         else if rd_ret io = 0 then (None, uh_request_done cl)
         else file_write_cb ios (uh_chunk_write (rd_ret io) (queued_after io) cl))
      else (None, cl))"

section \<open>Serving a regular file\<close>

record path_info =
  pi_root :: "string option"
  pi_phys :: "string option"
  pi_name :: "string option"
  pi_info :: "string option"
  pi_query :: "string option"
  pi_redirected :: bool
  pi_stat :: stat

function to_dec :: "nat \<Rightarrow> string" where
  "to_dec n = (if n < 10 then [hex_digit n] else to_dec (n div 10) @ [hex_digit (n mod 10)])"
  by pat_completeness auto
termination
  by (relation "measure id") auto

declare to_dec.simps [simp del]

text \<open>\<open>%i\<close>: the argument is read as a 32-bit signed \<open>int\<close>.\<close>

definition fmt_i :: "int \<Rightarrow> string" where
  "fmt_i x =
     (let v = sint (word_of_int x :: 32 word)
      in if v < 0 then ''-'' @ to_dec (nat (- v)) else to_dec (nat v))"

definition precondition_failed :: "int \<Rightarrow> client \<Rightarrow> client" where
  "precondition_failed fd cl = sys_close fd (uh_request_done cl)"

text \<open>What follows the tests in \<open>uh_file_data\<close>: the status, the headers and the body.\<close>

definition uh_file_send ::
  "env \<Rightarrow> io_step list \<Rightarrow> path_info \<Rightarrow> int \<Rightarrow> client \<Rightarrow> fault option \<times> client" where
  "uh_file_send e ios pi fd cl =
     (let cl1 = uh_file_response_200 e (Some (pi_stat pi)) cl
      in case pi_name pi of
           None \<Rightarrow> (Some NullPointer, cl1)
         | Some name \<Rightarrow>
             (let cl2 = ustream_printf
                          (''Content-Type: '' @ uh_file_mime_lookup e name @ CRLF) cl1;
                  cl3 = ustream_printf
                          (''Content-Length: '' @ fmt_i (st_size (pi_stat pi)) @ CRLF @ CRLF) cl2
              in if req_method cl3 = UH_HTTP_MSG_HEAD
                 then (None, sys_close fd (uh_request_done cl3))
                 else file_write_cb ios (cl3\<lparr>file_fd := Some fd\<rparr>)))"

text \<open>
  \<open>uh_file_data\<close>: the five tests are the operands of one \<open>||\<close> chain, so a test runs
  only when every test before it has returned true.
\<close>

definition uh_file_data ::
  "env \<Rightarrow> io_step list \<Rightarrow> path_info \<Rightarrow> int \<Rightarrow> client \<Rightarrow> fault option \<times> client" where
  "uh_file_data e ios pi fd cl =
     (case uh_file_if_modified_since e (pi_stat pi) cl of
        (False, cl1) \<Rightarrow> (None, precondition_failed fd cl1)
      | (True, cl1) \<Rightarrow>
     (case uh_file_if_match e (pi_stat pi) cl1 of
        (False, cl2) \<Rightarrow> (None, precondition_failed fd cl2)
      | (True, cl2) \<Rightarrow>
     (case uh_file_if_range e (pi_stat pi) cl2 of
        (False, cl3) \<Rightarrow> (None, precondition_failed fd cl3)
      | (True, cl3) \<Rightarrow>
     (case uh_file_if_unmodified_since e (pi_stat pi) cl3 of
        (False, cl4) \<Rightarrow> (None, precondition_failed fd cl4)
      | (True, cl4) \<Rightarrow>
     (case uh_file_if_none_match e (pi_stat pi) cl4 of
        (False, cl5) \<Rightarrow> (None, precondition_failed fd cl5)
      | (True, cl5) \<Rightarrow> uh_file_send e ios pi fd cl5)))))"

section \<open>Directory index\<close>

text \<open>
  \<open>stat\<close> on an empty path fails with \<open>ENOENT\<close>; every other path is looked up in the
  file system of the environment.
\<close>

definition uh_stat :: "env \<Rightarrow> string \<Rightarrow> stat option" where
  "uh_stat e path = (if path = [] then None else sys_stat e path)"

definition uh_chunk_printf :: "string \<Rightarrow> client \<Rightarrow> client" where
  "uh_chunk_printf s cl = cl\<lparr>sent := sent cl @ [ChunkPrintf s]\<rparr>"

definition uh_chunk_printf_item :: "list_item \<Rightarrow> client \<Rightarrow> client" where
  "uh_chunk_printf_item it cl = cl\<lparr>sent := sent cl @ [ChunkItem it]\<rparr>"

text \<open>The locals of \<open>list_entries\<close> that live across the rounds of its loop.\<close>

record entry_vars =
  suffix :: string
  type :: string
  mode :: "32 word"

definition entry_vars_init :: entry_vars where
  "entry_vars_init = \<lparr>suffix = ''/'', type = ''directory'', mode = S_IXOTH\<rparr>"

text \<open>The test \<open>name[0] == '.' && name[1] == 0\<close>.\<close>

definition is_self_entry :: "string \<Rightarrow> bool" where
  "is_self_entry name = (peek name 0 = CHR ''.'' \<and> peek name 1 = NUL)"

text \<open>
  The loop of \<open>list_entries\<close> over \<open>files\<close>. \<open>local_path\<close> is the directory's path as
  the caller has copied it into the buffer; the name of the entry is printed behind it
  before \<open>stat\<close> is called. The result is the locals after the last round, and the client.
\<close>

fun list_entries_loop ::
  "env \<Rightarrow> string \<Rightarrow> string \<Rightarrow> entry_vars \<Rightarrow> dirent list \<Rightarrow> client \<Rightarrow> entry_vars \<times> client" where
  "list_entries_loop e path local_path v [] cl = (v, cl)"
| "list_entries_loop e path local_path v (f # files) cl =
     (let name = d_name f; dir = (d_type f AND DT_DIR \<noteq> 0) in
      if is_self_entry name
      then list_entries_loop e path local_path v files cl
      else
        (case uh_stat e (local_path @ name) of
           None \<Rightarrow> list_entries_loop e path local_path v files cl
         | Some s \<Rightarrow>
             (let v' = (if \<not> dir
                        then \<lparr>suffix = [], type = uh_file_mime_lookup e (local_path @ name),
                              mode = S_IROTH\<rparr>
                        else v)
              in if st_mode s AND mode v' = 0
                 then list_entries_loop e path local_path v' files cl
                 else list_entries_loop e path local_path v' files
                        (uh_chunk_printf_item
                           \<lparr>li_path = path, li_name = name, li_suffix = suffix v',
                            li_modified = uh_file_unix2date e (st_mtime s),
                            li_type = type v', li_size = st_size s\<rparr> cl))))"

definition list_entries :: "env \<Rightarrow> dirent list \<Rightarrow> string \<Rightarrow> string \<Rightarrow> client \<Rightarrow> client" where
  "list_entries e files path local_path cl =
     snd (list_entries_loop e path local_path entry_vars_init files cl)"

text \<open>
  \<open>uh_file_dirlist\<close> reads \<open>pi->name\<close> and \<open>pi->phys\<close> as strings; \<open>scandir\<close> returns the
  entries in the order of \<open>dirent_cmp\<close>.
\<close>

definition uh_file_dirlist :: "env \<Rightarrow> path_info \<Rightarrow> client \<Rightarrow> fault option \<times> client" where
  "uh_file_dirlist e pi cl =
     (let cl1 = uh_file_response_200 e None cl;
          cl2 = ustream_printf (''Content-Type: text/html'' @ CRLF @ CRLF) cl1
      in case pi_name pi of
           None \<Rightarrow> (Some NullPointer, cl2)
         | Some name \<Rightarrow>
             (let cl3 = uh_chunk_printf
                          (''<html><head><title>Index of '' @ name @ ''</title></head>''
                           @ ''<body><h1>Index of '' @ name @ ''</h1><hr /><ol>'') cl2
              in case pi_phys pi of
                   None \<Rightarrow> (Some NullPointer, cl3)
                 | Some phys \<Rightarrow>
                     (let cl4 = (case scandir e phys of
                                   None \<Rightarrow> cl3
                                 | Some files \<Rightarrow>
                                     if files = [] then cl3
                                     else list_entries e files name phys cl3)
                      in (None,
                          uh_request_done
                            (uh_chunk_printf ''</ol><hr /></body></html>'' cl4)))))"

section \<open>Path canonicalisation\<close>

text \<open>
  \<open>while ((path_res > path_resolved) && (*--path_res != '/'));\<close> steps the output
  pointer back to the last separator written, or to the start of the output.
\<close>

definition path_pop :: "string \<Rightarrow> string" where
  "path_pop res = rev (tl (dropWhile (\<lambda>c. c \<noteq> CHR ''/'') (rev res)))"

text \<open>
  The normalising loop of \<open>canonpath\<close>. The second argument is the input from
  \<open>path_cpy\<close> on, the third the output written so far, and the first the distance of
  \<open>path_cpy\<close> from \<open>path + PATH_MAX - 2\<close>, where the loop stops.
\<close>

fun canon_loop :: "nat \<Rightarrow> string \<Rightarrow> string \<Rightarrow> string" where
  "canon_loop n [] res = res"
| "canon_loop n (c # cs) res =
     (if c = NUL \<or> n = 0 then res
      else if c \<noteq> CHR ''/'' then canon_loop (n - 1) cs (res @ [c])
      else if peek cs 0 = CHR ''/'' then canon_loop (n - 1) cs res
      else if peek cs 0 = CHR ''.'' \<and> (peek cs 1 = CHR ''/'' \<or> peek cs 1 = NUL)
        then canon_loop (n - 2) (drop 1 cs) res
      else if peek cs 0 = CHR ''.'' \<and> peek cs 1 = CHR ''.''
              \<and> (peek cs 2 = CHR ''/'' \<or> peek cs 2 = NUL)
        then canon_loop (n - 3) (drop 2 cs) (path_pop res)
      else canon_loop (n - 1) cs (res @ [c]))"

text \<open>Remove the trailing slash if the output is not the root; an empty output is the root.\<close>

definition canon_finish :: "string \<Rightarrow> string" where
  "canon_finish res =
     (if length res > 1 \<and> last res = CHR ''/'' then butlast res
      else if res = [] then ''/''
      else res)"

text \<open>
  \<open>canonpath\<close> returns whether its result is not NULL, and what \<open>path_resolved\<close> holds.
\<close>

definition canonpath :: "env \<Rightarrow> conf \<Rightarrow> string \<Rightarrow> bool \<times> string" where
  "canonpath e cf path =
     (if no_symlinks cf then
        (case realpath e path of
           Some r \<Rightarrow> (True, cstr r)
         | None \<Rightarrow> (False, cstr (realpath_failed e path)))
      else (True, canon_finish (canon_loop (PATH_MAX e - 2) path [])))"

section \<open>Looking a URL up under the document root\<close>

definition stat_zero :: stat where
  "stat_zero = \<lparr>st_mode = 0, st_ino = 0, st_size = 0, st_mtime = 0\<rparr>"

definition path_info_zero :: path_info where
  "path_info_zero =
     \<lparr>pi_root = None, pi_phys = None, pi_name = None, pi_info = None, pi_query = None,
      pi_redirected = False, pi_stat = stat_zero\<rparr>"

text \<open>
  \<open>for (i = len; i >= 0; i--)\<close>: the first index, from \<open>len\<close> down, whose byte is NUL or a
  slash; \<open>None\<close> when the loop runs out without reaching its \<open>break\<close>.
\<close>

fun find_break :: "string \<Rightarrow> nat \<Rightarrow> nat option" where
  "find_break buf 0 =
     (if peek buf 0 \<noteq> NUL \<and> peek buf 0 \<noteq> CHR ''/'' then None else Some 0)"
| "find_break buf (Suc i) =
     (if peek buf (Suc i) \<noteq> NUL \<and> peek buf (Suc i) \<noteq> CHR ''/'' then find_break buf i
      else Some (Suc i))"

text \<open>
  The loop over \<open>index_files\<close>: \<open>base\<close> is \<open>path_phys\<close> with its trailing slash, \<open>len\<close> the
  room left in the buffer (an \<open>int\<close> that the comparison with \<open>strlen\<close> reads as unsigned).
  The result is the path and the metadata of the first index file that is a regular file.
\<close>

fun try_index :: "env \<Rightarrow> string \<Rightarrow> int \<Rightarrow> string list \<Rightarrow> (string \<times> stat) option" where
  "try_index e base len [] = None"
| "try_index e base len (name # names) =
     (if 0 \<le> len \<and> int (length name) > len then try_index e base len names
      else
        (case uh_stat e (base @ name) of
           Some s \<Rightarrow>
             if st_mode s AND S_IFREG \<noteq> 0 then Some (base @ name, s)
             else try_index e base len names
         | None \<Rightarrow> try_index e base len names))"

text \<open>
  The URL up to its first question mark, and \<open>p.query\<close>: what follows the question mark,
  NULL when there is no question mark or nothing behind it.
\<close>

definition url_path :: "string \<Rightarrow> string" where
  "url_path url = takeWhile (\<lambda>c. c \<noteq> CHR ''?'') url"

definition url_query :: "string \<Rightarrow> string option" where
  "url_query url =
     (let after = drop 1 (dropWhile (\<lambda>c. c \<noteq> CHR ''?'') url)
      in if CHR ''?'' \<in> set url \<and> after \<noteq> [] then Some after else None)"

text \<open>
  The decoded path of the URL: \<open>uh_urldecode\<close> is called on the bytes before the question
  mark, and not at all when the question mark is the first byte.
\<close>

definition url_decode_path :: "env \<Rightarrow> int \<Rightarrow> string \<Rightarrow> string option" where
  "url_decode_path e blen url =
     (if CHR ''?'' \<in> set url
      then (if url_path url \<noteq> [] then uh_urldecode e blen (url_path url) else Some [])
      else uh_urldecode e blen url)"

text \<open>\<open>ensure trailing slash\<close>: \<open>pathptr[-1]\<close> is the last byte of a path that is not empty.\<close>

definition ensure_slash :: "string \<Rightarrow> string" where
  "ensure_slash path = (if last path \<noteq> CHR ''/'' then path @ ''/'' else path)"

text \<open>
  \<open>uh_path_lookup\<close> returns the \<open>struct path_info\<close> (\<open>None\<close> for NULL) together with what
  the static buffer \<open>path_phys\<close> holds on return, and the client with what has been sent.
  The arguments \<open>url\<close> and \<open>conf.docroot\<close> are C strings, read up to their first NUL.
  The function is written in four parts, in the order of the source.

  \<open>lookup_canon\<close> is the loop under \<open>create canon path\<close>: it fills \<open>path_phys\<close> and
  \<open>path_info\<close> from \<open>uh_buf\<close>; both stay empty when the loop never reaches its \<open>break\<close>.
\<close>

definition lookup_canon :: "env \<Rightarrow> conf \<Rightarrow> string \<Rightarrow> string \<times> string" where
  "lookup_canon e cf uh_buf =
     (case find_break uh_buf (min (length uh_buf) (PATH_MAX e - 1)) of
        None \<Rightarrow> ([], [])
      | Some i \<Rightarrow>
          (snd (canonpath e cf (take i uh_buf)), take (PATH_MAX e - 1) (drop i uh_buf)))"

text \<open>
  \<open>lookup_dir\<close> is what follows once the path is known to be a directory without path
  info: the trailing slash, the redirect when the request had none, the index files.
\<close>

definition lookup_dir ::
  "env \<Rightarrow> string list \<Rightarrow> client \<Rightarrow> string \<Rightarrow> string option \<Rightarrow> bool \<Rightarrow> stat \<Rightarrow> string
     \<Rightarrow> (path_info \<times> string) option \<times> client" where
  "lookup_dir e index_files cl root query slash st path_phys =
     (let docroot_len = length root;
          path_dir = ensure_slash path_phys
      in if \<not> slash then
           (Some (path_info_zero\<lparr>pi_query := query, pi_stat := st, pi_redirected := True\<rparr>,
                  path_dir),
            uh_request_done
              (ustream_printf
                 (''Location: '' @ drop docroot_len path_dir
                  @ (if query \<noteq> None then ''?'' else [])
                  @ (case query of Some q \<Rightarrow> q | None \<Rightarrow> [])
                  @ CRLF @ CRLF)
                 (uh_http_header 302 ''Found'' cl)))
         else
           (case try_index e path_dir
                   (int (PATH_MAX e) - int (length path_dir) - 1) index_files of
              Some (path_idx, s) \<Rightarrow>
                (Some (path_info_zero
                         \<lparr>pi_query := query, pi_stat := s, pi_root := Some root,
                          pi_phys := Some path_idx,
                          pi_name := Some (drop docroot_len path_idx)\<rparr>,
                       path_idx), cl)
            | None \<Rightarrow>
                (Some (path_info_zero
                         \<lparr>pi_query := query, pi_stat := st, pi_root := Some root,
                          pi_phys := Some path_dir,
                          pi_name := Some (drop docroot_len path_dir)\<rparr>,
                       path_dir), cl)))"

text \<open>
  \<open>lookup_stat\<close> is the part from \<open>check whether found path is within docroot\<close> to the
  tests of the file type.
\<close>

definition lookup_stat ::
  "env \<Rightarrow> string list \<Rightarrow> client \<Rightarrow> string \<Rightarrow> string option \<Rightarrow> bool \<Rightarrow> string \<Rightarrow> string
     \<Rightarrow> (path_info \<times> string) option \<times> client" where
  "lookup_stat e index_files cl root query slash path_phys path_info =
     (let docroot_len = length root
      in if \<not> strncmp_eq path_phys root docroot_len
            \<or> (peek path_phys docroot_len \<noteq> NUL \<and> peek path_phys docroot_len \<noteq> CHR ''/'')
         then (None, cl)
         else
           (case uh_stat e path_phys of
              None \<Rightarrow> (None, cl)
            | Some st \<Rightarrow>
                if st_mode st AND S_IFREG \<noteq> 0 then
                  (Some (path_info_zero
                           \<lparr>pi_query := query, pi_stat := st, pi_root := Some root,
                            pi_phys := Some path_phys,
                            pi_name := Some (drop docroot_len path_phys),
                            pi_info := (if path_info \<noteq> [] then Some path_info else None)\<rparr>,
                         path_phys), cl)
                else if st_mode st AND S_IFDIR = 0 then (None, cl)
                else if path_info \<noteq> [] then (None, cl)
                else lookup_dir e index_files cl root query slash st path_phys))"

definition uh_path_lookup ::
  "env \<Rightarrow> conf \<Rightarrow> string list \<Rightarrow> client \<Rightarrow> string option
     \<Rightarrow> (path_info \<times> string) option \<times> client" where
  "uh_path_lookup e cf index_files cl url_arg =
     (case url_arg of
        None \<Rightarrow> (None, cl)
      | Some url_bytes \<Rightarrow>
          (let root = cstr (docroot cf);
               docroot_len = length root;
               url = cstr url_bytes;
               blen = int (sizeof_uh_buf e) - int docroot_len - 1
           in case url_decode_path e blen url of
                None \<Rightarrow> (None, cl)
              | Some d \<Rightarrow>
                  (let uh_buf = root @ cstr d;
                       len = length uh_buf;
                       slash = (len \<noteq> 0 \<and> last uh_buf = CHR ''/'');
                       (path_phys, path_info) = lookup_canon e cf uh_buf
                   in lookup_stat e index_files cl root (url_query url) slash
                        path_phys path_info)))"

section \<open>The order of the tests, as specified\<close>

text \<open>
  The specification lists the tests in a fixed order and lets the first one that fails
  decide: \<open>first_failing\<close> runs a list of tests from its head and stops at the first
  that returns false. \<open>status_codes\<close> are the codes of the status lines among the events.
\<close>

definition precondition_checks :: "env \<Rightarrow> stat \<Rightarrow> (client \<Rightarrow> bool \<times> client) list" where
  "precondition_checks e s =
     [uh_file_if_modified_since e s, uh_file_if_match e s, uh_file_if_range e s,
      uh_file_if_unmodified_since e s, uh_file_if_none_match e s]"

fun first_failing :: "(client \<Rightarrow> bool \<times> client) list \<Rightarrow> client \<Rightarrow> bool \<times> client" where
  "first_failing [] cl = (True, cl)"
| "first_failing (check # checks) cl =
     (case check cl of
        (False, cl') \<Rightarrow> (False, cl')
      | (True, cl') \<Rightarrow> first_failing checks cl')"

fun status_codes :: "event list \<Rightarrow> nat list" where
  "status_codes [] = []"
| "status_codes (HttpHeader code summary # evs) = code # status_codes evs"
| "status_codes (ev # evs) = status_codes evs"

text \<open>
  A test sends one status line, 304 or 412, when it fails, and nothing when it passes.
\<close>

definition one_status :: "(client \<Rightarrow> bool \<times> client) \<Rightarrow> bool" where
  "one_status check = (\<forall>cl. case check cl of
       (True, cl') \<Rightarrow> sent cl' = sent cl
     | (False, cl') \<Rightarrow> status_codes (sent cl') = status_codes (sent cl) @ [304]
                     \<or> status_codes (sent cl') = status_codes (sent cl) @ [412])"

section \<open>Containment in the document root, as specified\<close>

text \<open>
  The invariant of the specification: the physical path is the root, or starts with the
  root followed by a path separator.
\<close>

definition within_root :: "string \<Rightarrow> string \<Rightarrow> bool" where
  "within_root root phys = (phys = root \<or> prefix (root @ ''/'') phys)"

text \<open>
  What the check in \<open>uh_path_lookup\<close> and the steps after it keep: the path starts with
  the root, and it is the root, or a separator follows the root, or the root itself ends
  with a separator.
\<close>

definition contained :: "string \<Rightarrow> string \<Rightarrow> bool" where
  "contained root phys =
     (prefix root phys
      \<and> (phys = root \<or> peek phys (length root) = CHR ''/''
           \<or> (root \<noteq> [] \<and> last root = CHR ''/'')))"

section \<open>Canonical paths, as specified\<close>

text \<open>
  The segments of a path are the pieces between its separators. A path is canonical when
  no segment is \<open>.\<close> or \<open>..\<close>, no separator is repeated, and no separator ends the path
  unless the path is the root itself.
\<close>

fun segments :: "string \<Rightarrow> string list" where
  "segments [] = [[]]"
| "segments (c # cs) =
     (if c = CHR ''/'' then [] # segments cs
      else (c # hd (segments cs)) # tl (segments cs))"

fun repeated_separator :: "string \<Rightarrow> bool" where
  "repeated_separator (a # b # cs) =
     ((a = CHR ''/'' \<and> b = CHR ''/'') \<or> repeated_separator (b # cs))"
| "repeated_separator cs = False"

definition canonical :: "string \<Rightarrow> bool" where
  "canonical p =
     (''.'' \<notin> set (segments p) \<and> ''..'' \<notin> set (segments p)
      \<and> \<not> repeated_separator p
      \<and> (p = ''/'' \<or> p = [] \<or> last p \<noteq> CHR ''/''))"

section \<open>Lying outside the document root, as specified\<close>

text \<open>
  The specification asks that a physical path never lies outside the root. Where a path
  lies is read off its segments: \<open>walk\<close> starts in a directory, given by the names that
  lead to it from the root directory of the host, and follows the segments. An empty
  segment and \<open>.\<close> stay in the directory, \<open>..\<close> steps to its parent, and a name steps
  down; no segment is taken to be a symbolic link. A path lies within the root when
  the walk along the path passes through the directory the root names.
\<close>

fun walk :: "string list \<Rightarrow> string list \<Rightarrow> string list" where
  "walk dir [] = dir"
| "walk dir (s # ss) =
     (if s = [] \<or> s = ''.'' then walk dir ss
      else if s = ''..'' then walk (butlast dir) ss
      else walk (dir @ [s]) ss)"

definition lies_within :: "string \<Rightarrow> string \<Rightarrow> bool" where
  "lies_within root phys = prefix (walk [] (segments root)) (walk [] (segments phys))"

section \<open>Header values as token lists\<close>

text \<open>
  The members of a header value read as a list of tokens separated by commas and spaces,
  as the specification words it.
\<close>

fun tokens_from :: "string \<Rightarrow> string \<Rightarrow> string list" where
  "tokens_from cur [] = [cur]"
| "tokens_from cur (c # cs) =
     (if c = CHR '' '' \<or> c = CHR '','' then cur # tokens_from [] cs
      else tokens_from (cur @ [c]) cs)"

definition hdr_tokens :: "string \<Rightarrow> string list" where
  "hdr_tokens hdr = filter (\<lambda>t. t \<noteq> []) (tokens_from [] hdr)"

section \<open>An example installation\<close>

text \<open>
  A 64-bit Linux host serving \<open>/www\<close>, which holds \<open>index.html\<close> and the directories \<open>b\<close>
  and \<open>a?b\<close>. The decoder is given on the URLs of the examples: \<open>%3F\<close> in \<open>/a%3Fb\<close> is
  the question mark, and the other URLs carry no percent escapes, so decoding leaves
  them as they are.
\<close>

definition example_dir :: stat where
  "example_dir = \<lparr>st_mode = 0x41ED, st_ino = 7, st_size = 4096, st_mtime = 1000\<rparr>"

definition example_file :: stat where
  "example_file = \<lparr>st_mode = 0x81A4, st_ino = 1, st_size = 2, st_mtime = 3\<rparr>"

definition example_fs :: "string \<Rightarrow> stat option" where
  "example_fs path =
     (if path = ''/'' \<or> path = ''/www'' \<or> path = ''/www/b'' \<or> path = ''/www/b/..''
         \<or> path = ''/www/a?b''
      then Some example_dir
      else if path = ''/index.html'' \<or> path = ''/www/index.html'' then Some example_file
      else None)"

definition example_env :: env where
  "example_env =
     \<lparr>PATH_MAX = 4096, sizeof_ptr = 8, sizeof_uh_buf = 4096,
      uh_urldecode = (\<lambda>blen src. if src = ''/a%3Fb'' then Some ''/a?b'' else Some src),
      realpath = (\<lambda>path. Some path), realpath_failed = (\<lambda>path. []),
      sys_stat = example_fs,
      strptime_timegm =
        (\<lambda>date. if date = ''Thu, 01 Jan 1970 00:01:40 GMT'' then Some 100 else None),
      strftime_gmt = (\<lambda>ts. fmt_i ts), time_now = 2000,
      uh_mime_types = [(''html'', ''text/html'')],
      scandir = (\<lambda>path. None)\<rparr>"

definition example_conf :: conf where
  "example_conf = \<lparr>docroot = ''/www'', no_symlinks = False\<rparr>"

definition example_client :: client where
  "example_client =
     \<lparr>req_method = UH_HTTP_MSG_GET, file_hdr = (\<lambda>h. None), data_bytes = 0, file_fd = None,
      sent = []\<rparr>"

definition example_index :: path_info where
  "example_index =
     path_info_zero\<lparr>pi_stat := example_file, pi_root := Some ''/www'',
       pi_phys := Some ''/www/index.html'', pi_name := Some ''/index.html''\<rparr>"

text \<open>
  The same host serving a virtual host from a document root of 32 bytes. The name \<open>..\<close>
  in the document root is its parent directory \<open>/srv/www/vhosts/example.org\<close>.
\<close>

definition vhost_root :: string where
  "vhost_root = ''/srv/www/vhosts/example.org/html''"

definition vhost_fs :: "string \<Rightarrow> stat option" where
  "vhost_fs path =
     (if path = vhost_root \<or> path = vhost_root @ ''/..'' then Some example_dir else None)"

definition vhost_env :: env where
  "vhost_env = example_env\<lparr>sys_stat := vhost_fs\<rparr>"

definition vhost_conf :: conf where
  "vhost_conf = \<lparr>docroot = vhost_root, no_symlinks = False\<rparr>"

section \<open>Entity tags\<close>

lemma mktag_1_2_3:
  "uh_file_mktag (e\<lparr>sizeof_ptr := 8\<rparr>) \<lparr>st_mode = m, st_ino = 1, st_size = 2, st_mtime = 3\<rparr>
   = DQUOTE # ''1-2-3'' @ [DQUOTE]"
  by (simp add: uh_file_mktag_def fmt_x_def hex_digit_def to_hex.simps)

text \<open>
  C4: the entity tag is meant to be the quoted triplet of inode, size and modification
  time in hexadecimal, so that a change of any one field changes the tag. With 8-byte
  pointers \<open>uh_file_mktag\<close> keeps only the first seven bytes of the triplet: for a file
  with inode \<open>0x123456\<close> the tag is the opening quote and the six digits of the inode,
  and two files that differ in their modification time carry the same tag.
\<close>

theorem uh_file_mktag_drops_mtime:
  "uh_file_mktag (e\<lparr>sizeof_ptr := 8\<rparr>)
     \<lparr>st_mode = m, st_ino = 1193046, st_size = 1, st_mtime = 2\<rparr> = DQUOTE # ''123456''
   \<and> uh_file_mktag (e\<lparr>sizeof_ptr := 8\<rparr>)
     \<lparr>st_mode = m, st_ino = 1193046, st_size = 1, st_mtime = 3\<rparr> = DQUOTE # ''123456''"
  by (simp add: uh_file_mktag_def fmt_x_def hex_digit_def to_hex.simps)

section \<open>The tests on the conditional headers\<close>

text \<open>
  What the loop of \<open>uh_file_if_match\<close> computes on a header value: the test passes when
  the whole value is \<open>*\<close> or is the entity tag, and for no other value.
\<close>

lemma if_match_loop_stops:
  "strlen hdr \<le> i \<Longrightarrow> if_match_loop tag hdr i p = (False, hdr)"
  by (simp add: if_match_loop.simps)

lemma if_match_loop_no_match:
  assumes "\<not> strcmp_eq hdr 0 ''*''" "\<not> strcmp_eq hdr 0 tag"
  shows "fst (if_match_loop tag hdr i 0) = False"
  using assms
proof (induction "strlen hdr - i" arbitrary: i rule: less_induct)
  case less
  show ?case
  proof (cases "i < strlen hdr")
    case False
    then show ?thesis by (simp add: if_match_loop.simps)
  next
    case True
    show ?thesis
    proof (cases "peek hdr i = CHR '' '' \<or> peek hdr i = CHR '',''")
      case sep: True
      have "strlen (hdr[i := NUL]) \<le> i + 2"
        using strlen_update_NUL [OF True] by simp
      then have "if_match_loop tag (hdr[i := NUL]) (i + 2) (i + 1) = (False, hdr[i := NUL])"
        by (rule if_match_loop_stops)
      with True sep show ?thesis
        by (subst if_match_loop.simps) auto
    next
      case False
      have "fst (if_match_loop tag hdr (i + 1) 0) = False"
        using True less.prems by (intro less.hyps) simp_all
      with True False less.prems show ?thesis
        by (subst if_match_loop.simps) auto
    qed
  qed
qed

lemma if_match_loop_whole_value:
  assumes "NUL \<notin> set hdr" "NUL \<notin> set tag"
  shows "fst (if_match_loop tag hdr 0 0) \<longleftrightarrow>
           hdr \<noteq> [] \<and> hd hdr \<noteq> CHR '' '' \<and> hd hdr \<noteq> CHR '','' \<and> (hdr = ''*'' \<or> hdr = tag)"
proof (cases hdr)
  case Nil
  then show ?thesis by (simp add: if_match_loop.simps strlen_def cstr_def)
next
  case (Cons c cs)
  have len: "0 < strlen hdr"
    using assms(1) Cons by (simp add: strlen_NUL_free)
  have cmp: "strcmp_eq hdr 0 t \<longleftrightarrow> hdr = cstr t" for t
    using cstr_id [OF assms(1)] by (auto simp: strcmp_eq_def)
  have star: "cstr ''*'' = ''*''"
    by (simp add: cstr_def NUL_def)
  have tagc: "cstr tag = tag"
    using assms(2) by (rule cstr_id)
  show ?thesis
  proof (cases "c = CHR '' '' \<or> c = CHR '',''")
    case True
    have "strlen (hdr[0 := NUL]) \<le> 0 + 2"
      using strlen_update_NUL [OF len] by simp
    then have "if_match_loop tag (hdr[0 := NUL]) (0 + 2) (0 + 1) = (False, hdr[0 := NUL])"
      by (rule if_match_loop_stops)
    with True len Cons show ?thesis
      by (subst if_match_loop.simps) (auto simp: peek_def)
  next
    case nosep: False
    show ?thesis
    proof (cases "hdr = ''*'' \<or> hdr = tag")
      case True
      with nosep len Cons cmp star tagc show ?thesis
        by (subst if_match_loop.simps) (auto simp: peek_def)
    next
      case False
      then have "fst (if_match_loop tag hdr (0 + 1) 0) = False"
        using cmp star tagc by (intro if_match_loop_no_match) simp_all
      with False nosep len Cons cmp star tagc show ?thesis
        by (subst if_match_loop.simps) (auto simp: peek_def)
    qed
  qed
qed

text \<open>
  C7: a member of the \<open>If-Match\<close> list that equals the entity tag should let the test
  pass. For the value \<open>x, "1-2-3"\<close> and a file whose tag is \<open>"1-2-3"\<close> the tag is a member
  of the list, and \<open>uh_file_if_match\<close> answers 412: the first separator is overwritten
  with NUL, which ends the loop, since its bound \<open>strlen(hdr)\<close> is read again.
\<close>

theorem uh_file_if_match_second_member:
  "uh_file_mktag (e\<lparr>sizeof_ptr := 8\<rparr>) \<lparr>st_mode = m, st_ino = 1, st_size = 2, st_mtime = 3\<rparr>
     \<in> set (hdr_tokens (''x, '' @ DQUOTE # ''1-2-3'' @ [DQUOTE]))
   \<and> uh_file_if_match (e\<lparr>sizeof_ptr := 8\<rparr>)
       \<lparr>st_mode = m, st_ino = 1, st_size = 2, st_mtime = 3\<rparr>
       (cl\<lparr>file_hdr := (file_hdr cl)(HDR_IF_MATCH \<mapsto> ''x, '' @ DQUOTE # ''1-2-3'' @ [DQUOTE]),
           sent := []\<rparr>)
     = (False, cl\<lparr>file_hdr := (file_hdr cl)(HDR_IF_MATCH \<mapsto> ''x''),
                  sent := [HttpHeader 412 ''Precondition Failed'']\<rparr>)"
  by (simp add: mktag_1_2_3 hdr_tokens_def uh_file_if_match_def uh_file_header_def
        uh_file_response_412_def uh_http_header_def if_match_loop.simps
        strlen_def cstr_def peek_def strcmp_eq_def NUL_def DQUOTE_def)

text \<open>
  C3: a date that does not parse should count as an absent header. \<open>uh_file_date2unix\<close>
  returns 0 for it, and the tests compare that 0 with the modification time:
  \<open>If-Unmodified-Since\<close> with an unparsable value answers 412 for a file modified at
  second 1000, and \<open>If-Modified-Since\<close> with an unparsable value answers 304 for a file
  modified at second 0.
\<close>

theorem unparsable_date_is_epoch:
  "uh_file_if_unmodified_since (e\<lparr>strptime_timegm := (\<lambda>date. None)\<rparr>) (s\<lparr>st_mtime := 1000\<rparr>)
     (cl\<lparr>file_hdr := (file_hdr cl)(HDR_IF_UNMODIFIED_SINCE \<mapsto> ''garbage'')\<rparr>)
   = (False, uh_file_response_412
               (cl\<lparr>file_hdr := (file_hdr cl)(HDR_IF_UNMODIFIED_SINCE \<mapsto> ''garbage'')\<rparr>))
   \<and> uh_file_if_modified_since (e\<lparr>strptime_timegm := (\<lambda>date. None)\<rparr>) (s\<lparr>st_mtime := 0\<rparr>)
     (cl\<lparr>file_hdr := (file_hdr cl)(HDR_IF_MODIFIED_SINCE \<mapsto> ''garbage'')\<rparr>)
   = (False, uh_file_response_304 (e\<lparr>strptime_timegm := (\<lambda>date. None)\<rparr>)
               (Some (s\<lparr>st_mtime := 0\<rparr>))
               (cl\<lparr>file_hdr := (file_hdr cl)(HDR_IF_MODIFIED_SINCE \<mapsto> ''garbage'')\<rparr>))"
  by (simp add: uh_file_if_unmodified_since_def uh_file_if_modified_since_def
        uh_file_header_def uh_file_date2unix_def)

section \<open>Status lines\<close>

lemma status_codes_append: "status_codes (xs @ ys) = status_codes xs @ status_codes ys"
  by (induction xs rule: status_codes.induct) simp_all

lemma status_ok_hdrs: "status_codes (sent (uh_file_response_ok_hdrs e s cl)) = status_codes (sent cl)"
  by (simp add: uh_file_response_ok_hdrs_def ustream_printf_def status_codes_append Let_def split: option.splits)

lemma status_304: "status_codes (sent (uh_file_response_304 e s cl)) = status_codes (sent cl) @ [304]"
  by (simp add: uh_file_response_304_def status_ok_hdrs uh_http_header_def status_codes_append)

lemma status_200: "status_codes (sent (uh_file_response_200 e s cl)) = status_codes (sent cl) @ [200]"
  by (simp add: uh_file_response_200_def status_ok_hdrs uh_http_header_def status_codes_append)

lemma status_412: "status_codes (sent (uh_file_response_412 cl)) = status_codes (sent cl) @ [412]"
  by (simp add: uh_file_response_412_def uh_http_header_def status_codes_append)

lemma ok_ims: "one_status (uh_file_if_modified_since e s)"
  by (simp add: one_status_def uh_file_if_modified_since_def status_304 split: option.splits)

lemma ok_im: "one_status (uh_file_if_match e s)"
  by (simp add: one_status_def uh_file_if_match_def status_412 split: option.splits prod.splits bool.splits)

lemma ok_ir: "one_status (uh_file_if_range e s)"
  by (simp add: one_status_def uh_file_if_range_def status_412 split: option.splits)

lemma ok_ius: "one_status (uh_file_if_unmodified_since e s)"
  by (simp add: one_status_def uh_file_if_unmodified_since_def status_412 split: option.splits)

lemma ok_inm: "one_status (uh_file_if_none_match e s)"
  by (simp add: one_status_def uh_file_if_none_match_def status_412 status_304 Let_def split: option.splits prod.splits bool.splits)

lemma first_failing_status:
  "\<forall>c \<in> set checks. one_status c \<Longrightarrow>
   (case first_failing checks cl of
       (True, cl') \<Rightarrow> sent cl' = sent cl
     | (False, cl') \<Rightarrow> status_codes (sent cl') = status_codes (sent cl) @ [304]
                     \<or> status_codes (sent cl') = status_codes (sent cl) @ [412])"
proof (induction checks arbitrary: cl)
  case Nil
  then show ?case by simp
next
  case (Cons c cs)
  obtain b cl1 where c: "c cl = (b, cl1)" by (cases "c cl")
  have okc: "one_status c" using Cons.prems by simp
  show ?case
  proof (cases b)
    case False
    with c okc show ?thesis
      unfolding one_status_def by (auto dest!: spec [of _ cl])
  next
    case True
    with c okc have s1: "sent cl1 = sent cl"
      unfolding one_status_def by (auto dest!: spec [of _ cl])
    have "case first_failing cs cl1 of
       (True, cl') \<Rightarrow> sent cl' = sent cl1
     | (False, cl') \<Rightarrow> status_codes (sent cl') = status_codes (sent cl1) @ [304]
                     \<or> status_codes (sent cl') = status_codes (sent cl1) @ [412]"
      using Cons.IH Cons.prems by simp
    with c True s1 show ?thesis by (simp split: prod.splits bool.splits)
  qed
qed

lemma file_write_cb_status:
  "status_codes (sent (snd (file_write_cb ios cl))) = status_codes (sent cl)"
  by (induction ios arbitrary: cl)
     (simp_all add: uh_request_done_def uh_chunk_write_def status_codes_append)

lemma uh_file_send_status:
  "status_codes (sent (snd (uh_file_send e ios pi fd cl))) = status_codes (sent cl) @ [200]"
  by (simp add: uh_file_send_def Let_def file_write_cb_status ustream_printf_def
        uh_request_done_def sys_close_def status_codes_append status_200
      split: option.splits)

lemma precondition_failed_status:
  "status_codes (sent (precondition_failed fd cl)) = status_codes (sent cl)"
  by (simp add: precondition_failed_def uh_request_done_def sys_close_def status_codes_append)

lemma uh_file_data_first_failing:
  "uh_file_data e ios pi fd cl =
     (case first_failing (precondition_checks e (pi_stat pi)) cl of
        (False, cl') \<Rightarrow> (None, precondition_failed fd cl')
      | (True, cl') \<Rightarrow> uh_file_send e ios pi fd cl')"
  by (simp add: uh_file_data_def precondition_checks_def split: prod.splits bool.splits)

text \<open>
  C6: the tests on a resolved regular file run in the fixed order If-Modified-Since,
  If-Match, If-Range, If-Unmodified-Since, If-None-Match. \<open>uh_file_data\<close> is the run of
  that list up to the first test that fails: that test's client is the one the request
  is finished with, its status line (304 or 412) is the only one sent, and no later test
  runs; when every test passes, and only then, the one status line sent is 200.
\<close>

theorem uh_file_data_precondition_order:
  "uh_file_data e ios pi fd cl =
     (case first_failing (precondition_checks e (pi_stat pi)) cl of
        (False, cl') \<Rightarrow> (None, precondition_failed fd cl')
      | (True, cl') \<Rightarrow> uh_file_send e ios pi fd cl')
   \<and> (case first_failing (precondition_checks e (pi_stat pi)) cl of
        (False, cl') \<Rightarrow>
           status_codes (sent (snd (uh_file_data e ios pi fd cl))) = status_codes (sent cl) @ [304]
         \<or> status_codes (sent (snd (uh_file_data e ios pi fd cl))) = status_codes (sent cl) @ [412]
      | (True, cl') \<Rightarrow>
           status_codes (sent (snd (uh_file_data e ios pi fd cl))) = status_codes (sent cl) @ [200])"
proof -
  have ok: "\<forall>c \<in> set (precondition_checks e (pi_stat pi)). one_status c"
    by (simp add: precondition_checks_def ok_ims ok_im ok_ir ok_ius ok_inm)
  note ff = first_failing_status [OF ok, of cl]
  obtain b cl1 where r: "first_failing (precondition_checks e (pi_stat pi)) cl = (b, cl1)"
    by (cases "first_failing (precondition_checks e (pi_stat pi)) cl")
  show ?thesis
  proof (cases b)
    case True
    with r ff show ?thesis
      by (simp add: uh_file_data_first_failing uh_file_send_status)
  next
    case False
    with r ff show ?thesis
      by (simp add: uh_file_data_first_failing precondition_failed_status)
  qed
qed

lemma ims_pass_same:
  "uh_file_if_modified_since e s cl = (True, cl') \<Longrightarrow> cl' = cl"
  by (auto simp: uh_file_if_modified_since_def split: option.splits if_splits)

text \<open>
  C2, as stated, fails: with \<open>If-Range\<close> present and an \<open>If-Modified-Since\<close> date that is
  not before the modification time of the file, the first test answers 304 and the test
  of \<open>If-Range\<close> is never reached.
\<close>

theorem if_range_after_if_modified_since:
  "file_hdr (example_client\<lparr>file_hdr :=
        [HDR_IF_RANGE \<mapsto> ''x'', HDR_IF_MODIFIED_SINCE \<mapsto> ''Thu, 01 Jan 1970 00:01:40 GMT'']\<rparr>)
      HDR_IF_RANGE \<noteq> None
   \<and> status_codes (sent (snd (uh_file_data example_env [] example_index 3
        (example_client\<lparr>file_hdr :=
           [HDR_IF_RANGE \<mapsto> ''x'', HDR_IF_MODIFIED_SINCE \<mapsto> ''Thu, 01 Jan 1970 00:01:40 GMT'']\<rparr>))))
     = [304]"
  by (simp add: uh_file_data_def uh_file_if_modified_since_def uh_file_header_def
        uh_file_date2unix_def example_env_def example_index_def example_file_def
        example_client_def precondition_failed_status status_304)

text \<open>
  C2, amended: if the \<open>If-Range\<close> header is present and the test of \<open>If-Modified-Since\<close>,
  which comes first, passes, the response is 412 Precondition Failed, whatever the other
  conditional headers hold: one status line, then the request is finished and the file
  closed.
\<close>

theorem if_range_forces_412:
  assumes "file_hdr cl HDR_IF_RANGE \<noteq> None"
    and "fst (uh_file_if_modified_since e (pi_stat pi) cl)"
  shows "fst (uh_file_data e ios pi fd cl) = None
    \<and> sent (snd (uh_file_data e ios pi fd cl))
        = sent cl @ [HttpHeader 412 ''Precondition Failed'', RequestDone, Close fd]"
proof -
  obtain r where r: "file_hdr cl HDR_IF_RANGE = Some r"
    using assms(1) by auto
  have ims: "uh_file_if_modified_since e (pi_stat pi) cl = (True, cl)"
    using assms(2) ims_pass_same [of e "pi_stat pi" cl]
    by (cases "uh_file_if_modified_since e (pi_stat pi) cl") auto
  obtain b cl2 where im: "uh_file_if_match e (pi_stat pi) cl = (b, cl2)"
    by (cases "uh_file_if_match e (pi_stat pi) cl")
  show ?thesis
  proof (cases b)
    case False
    with im have "sent cl2 = sent cl @ [HttpHeader 412 ''Precondition Failed'']"
      by (auto simp: uh_file_if_match_def uh_file_response_412_def uh_http_header_def
            split: option.splits prod.splits bool.splits)
    with ims im False show ?thesis
      by (simp add: uh_file_data_def precondition_failed_def uh_request_done_def sys_close_def)
  next
    case True
    with im have s2: "sent cl2 = sent cl" and h2: "file_hdr cl2 HDR_IF_RANGE = Some r"
      using r
      by (auto simp: uh_file_if_match_def uh_file_header_def split: option.splits prod.splits bool.splits)
    then have "uh_file_if_range e (pi_stat pi) cl2 = (False, uh_file_response_412 cl2)"
      by (simp add: uh_file_if_range_def uh_file_header_def)
    with ims im True s2 show ?thesis
      by (simp add: uh_file_data_def precondition_failed_def uh_request_done_def sys_close_def
            uh_file_response_412_def uh_http_header_def)
  qed
qed

text \<open>
  C2, an instance: \<open>If-Range\<close> together with \<open>If-None-Match: *\<close> on the example file.
\<close>

theorem if_range_forces_412_witness:
  "file_hdr (example_client\<lparr>file_hdr := [HDR_IF_RANGE \<mapsto> ''x'', HDR_IF_NONE_MATCH \<mapsto> ''*'']\<rparr>) HDR_IF_RANGE \<noteq> None
   \<and> fst (uh_file_if_modified_since example_env (pi_stat example_index)
        (example_client\<lparr>file_hdr := [HDR_IF_RANGE \<mapsto> ''x'', HDR_IF_NONE_MATCH \<mapsto> ''*'']\<rparr>))
   \<and> fst (uh_file_data example_env [] example_index 3
        (example_client\<lparr>file_hdr := [HDR_IF_RANGE \<mapsto> ''x'', HDR_IF_NONE_MATCH \<mapsto> ''*'']\<rparr>)) = None
   \<and> sent (snd (uh_file_data example_env [] example_index 3
        (example_client\<lparr>file_hdr := [HDR_IF_RANGE \<mapsto> ''x'', HDR_IF_NONE_MATCH \<mapsto> ''*'']\<rparr>)))
      = [HttpHeader 412 ''Precondition Failed'', RequestDone, Close 3]"
proof -
  have h1: "file_hdr (example_client\<lparr>file_hdr := [HDR_IF_RANGE \<mapsto> ''x'', HDR_IF_NONE_MATCH \<mapsto> ''*'']\<rparr>) HDR_IF_RANGE \<noteq> None"
    by simp
  have h2: "fst (uh_file_if_modified_since example_env (pi_stat example_index)
        (example_client\<lparr>file_hdr := [HDR_IF_RANGE \<mapsto> ''x'', HDR_IF_NONE_MATCH \<mapsto> ''*'']\<rparr>))"
    by (simp add: uh_file_if_modified_since_def uh_file_header_def)
  show ?thesis
    using h1 h2 if_range_forces_412 [OF h1 h2, of "[]" 3] by (simp add: example_client_def)
qed

section \<open>The write callback\<close>

text \<open>
  While fewer than 256 bytes are queued, a read interrupted by a signal is tried again
  and a read of zero bytes finishes the request.
\<close>

lemma file_write_cb_eintr:
  "data_bytes cl < 256 \<Longrightarrow> rd_ret io < 0 \<Longrightarrow> rd_errno io = EINTR \<Longrightarrow>
   file_write_cb (io # ios) cl = file_write_cb ios cl"
  by simp

lemma file_write_cb_eof:
  "data_bytes cl < 256 \<Longrightarrow> rd_ret io = 0 \<Longrightarrow>
   file_write_cb (io # ios) cl = (None, uh_request_done cl)"
  by simp

text \<open>
  C9: a read that fails with an error other than \<open>EINTR\<close> should end the transfer with
  nothing more enqueued. In \<open>file_write_cb\<close> such a read falls through to
  \<open>uh_chunk_write\<close>, which is called with the length -1, and the loop goes on to the
  next read: here a read failing with \<open>EIO\<close> is followed by the end of the file.
\<close>

theorem file_write_cb_read_error:
  "file_write_cb
     [\<lparr>rd_ret = -1, rd_errno = EIO, queued_after = 0\<rparr>,
      \<lparr>rd_ret = 0, rd_errno = EIO, queued_after = 0\<rparr>]
     (cl\<lparr>data_bytes := 0\<rparr>)
   = (None, cl\<lparr>data_bytes := 0, sent := sent cl @ [ChunkWrite (- 1), RequestDone]\<rparr>)"
  by (simp add: uh_chunk_write_def uh_request_done_def)

section \<open>The directory index\<close>

lemma is_self_entry_iff: "is_self_entry name \<longleftrightarrow> cstr name = ''.''"
proof (cases name)
  case Nil
  then show ?thesis by (simp add: is_self_entry_def peek_def cstr_def NUL_def)
next
  case (Cons a m)
  then show ?thesis
    by (cases m) (auto simp: is_self_entry_def peek_def cstr_def NUL_def)
qed

lemma list_entries_loop_append:
  "list_entries_loop e path lp v (xs @ ys) cl =
     (case list_entries_loop e path lp v xs cl of
        (v1, cl1) \<Rightarrow> list_entries_loop e path lp v1 ys cl1)"
  by (induction xs arbitrary: v cl) (simp_all add: Let_def split: option.splits)

lemma list_entries_loop_prefix:
  "prefix (sent cl) (sent (snd (list_entries_loop e path lp v files cl)))"
proof (induction files arbitrary: v cl)
  case Nil
  then show ?case by simp
next
  case (Cons f files)
  have step: "\<And>it v'. prefix (sent cl)
      (sent (snd (list_entries_loop e path lp v' files (uh_chunk_printf_item it cl))))"
  proof -
    fix it v'
    have "prefix (sent (uh_chunk_printf_item it cl))
      (sent (snd (list_entries_loop e path lp v' files (uh_chunk_printf_item it cl))))"
      by (rule Cons.IH)
    moreover have "prefix (sent cl) (sent (uh_chunk_printf_item it cl))"
      by (simp add: uh_chunk_printf_item_def)
    ultimately show "prefix (sent cl)
      (sent (snd (list_entries_loop e path lp v' files (uh_chunk_printf_item it cl))))"
      by (rule prefix_order.trans [rotated])
  qed
  show ?case
    by (simp add: Let_def Cons.IH step split: option.splits)
qed

lemma list_entries_loop_items:
  "ChunkItem it \<in> set (sent (snd (list_entries_loop e path lp v files cl))) \<Longrightarrow>
   ChunkItem it \<in> set (sent cl) \<or> \<not> is_self_entry (li_name it)"
proof (induction files arbitrary: v cl)
  case Nil
  then show ?case by simp
next
  case (Cons f files)
  show ?case
  proof (cases "is_self_entry (d_name f)")
    case True
    with Cons show ?thesis by simp
  next
    case False
    show ?thesis
    proof (cases "uh_stat e (lp @ d_name f)")
      case None
      with False Cons show ?thesis by simp
    next
      case (Some s)
      define v' where "v' = (if \<not> (d_type f AND DT_DIR \<noteq> 0)
                        then \<lparr>suffix = [], type = uh_file_mime_lookup e (lp @ d_name f),
                              mode = S_IROTH\<rparr>
                        else v)"
      show ?thesis
      proof (cases "st_mode s AND mode v' = 0")
        case True
        with False Some Cons.prems have
          "ChunkItem it \<in> set (sent (snd (list_entries_loop e path lp v' files cl)))"
          by (simp add: Let_def v'_def)
        then show ?thesis by (rule Cons.IH)
      next
        case nz: False
        define item where "item = \<lparr>li_path = path, li_name = d_name f, li_suffix = suffix v',
                            li_modified = uh_file_unix2date e (st_mtime s),
                            li_type = type v', li_size = st_size s\<rparr>"
        from False Some Cons.prems nz have
          "ChunkItem it \<in> set (sent (snd (list_entries_loop e path lp v' files
              (uh_chunk_printf_item item cl))))"
          by (simp add: Let_def v'_def item_def)
        then have "ChunkItem it \<in> set (sent (uh_chunk_printf_item item cl))
           \<or> \<not> is_self_entry (li_name it)"
          by (rule Cons.IH)
        then show ?thesis
          using False by (auto simp: uh_chunk_printf_item_def item_def)
      qed
    qed
  qed
qed

text \<open>
  C10: in a directory listing only the entry named \<open>.\<close> is left out because of its
  name. Every other entry, the parent entry \<open>..\<close> among them, for which \<open>stat\<close> succeeds
  and whose mode has the permission bit that is asked for when its round of the loop is
  reached, is printed as a list item with its name as the link; and no list item that
  \<open>list_entries\<close> prints carries the name \<open>.\<close>.
\<close>

theorem list_entries_excludes_only_self:
  assumes name: "cstr (d_name f) \<noteq> ''.''"
    and stat: "uh_stat e (local_path @ d_name f) = Some s"
    and before: "list_entries_loop e path local_path entry_vars_init pre cl = (v, cl1)"
    and vars: "v' = (if d_type f AND DT_DIR \<noteq> 0 then v
                     else \<lparr>suffix = [], type = uh_file_mime_lookup e (local_path @ d_name f),
                           mode = S_IROTH\<rparr>)"
    and perm: "st_mode s AND mode v' \<noteq> 0"
  shows "ChunkItem \<lparr>li_path = path, li_name = d_name f, li_suffix = suffix v',
                     li_modified = uh_file_unix2date e (st_mtime s),
                     li_type = type v', li_size = st_size s\<rparr>
           \<in> set (sent (list_entries e (pre @ f # post) path local_path cl))
    \<and> (\<forall>it. ChunkItem it \<in> set (sent (list_entries e (pre @ f # post) path local_path cl))
          \<longrightarrow> ChunkItem it \<in> set (sent cl) \<or> cstr (li_name it) \<noteq> ''.'')"
proof -
  define item where "item = \<lparr>li_path = path, li_name = d_name f, li_suffix = suffix v',
                     li_modified = uh_file_unix2date e (st_mtime s),
                     li_type = type v', li_size = st_size s\<rparr>"
  have nself: "\<not> is_self_entry (d_name f)"
    using name by (simp add: is_self_entry_iff)
  have "list_entries_loop e path local_path entry_vars_init (pre @ f # post) cl
        = list_entries_loop e path local_path v (f # post) cl1"
    using before by (simp add: list_entries_loop_append)
  also have "\<dots> = list_entries_loop e path local_path v' post (uh_chunk_printf_item item cl1)"
    using nself stat vars perm by (auto simp: Let_def item_def split: if_splits)
  finally have eq: "list_entries e (pre @ f # post) path local_path cl
        = snd (list_entries_loop e path local_path v' post (uh_chunk_printf_item item cl1))"
    by (simp add: list_entries_def)
  have "prefix (sent (uh_chunk_printf_item item cl1))
          (sent (snd (list_entries_loop e path local_path v' post (uh_chunk_printf_item item cl1))))"
    by (rule list_entries_loop_prefix)
  then have "set (sent (uh_chunk_printf_item item cl1))
          \<subseteq> set (sent (list_entries e (pre @ f # post) path local_path cl))"
    unfolding eq by (rule set_mono_prefix)
  then have A: "ChunkItem item \<in> set (sent (list_entries e (pre @ f # post) path local_path cl))"
    by (auto simp: uh_chunk_printf_item_def)
  have B: "\<forall>it. ChunkItem it \<in> set (sent (list_entries e (pre @ f # post) path local_path cl))
          \<longrightarrow> ChunkItem it \<in> set (sent cl) \<or> cstr (li_name it) \<noteq> ''.''"
    using list_entries_loop_items [of _ e path local_path entry_vars_init "pre @ f # post" cl]
    by (auto simp: list_entries_def is_self_entry_iff)
  from A B show ?thesis unfolding item_def by blast
qed

text \<open>
  C10, an instance: a directory whose enumeration returns \<open>.\<close> and \<open>..\<close>; the parent
  entry is listed.
\<close>

theorem list_entries_excludes_only_self_witness:
  "cstr ''..'' \<noteq> ''.''
   \<and> uh_stat example_env (''/www/b/'' @ ''..'') = Some example_dir
   \<and> list_entries_loop example_env ''/b/'' ''/www/b/'' entry_vars_init
        [\<lparr>d_name = ''.'', d_type = DT_DIR\<rparr>] example_client = (entry_vars_init, example_client)
   \<and> st_mode example_dir AND mode entry_vars_init \<noteq> 0
   \<and> ChunkItem \<lparr>li_path = ''/b/'', li_name = ''..'', li_suffix = ''/'',
                  li_modified = uh_file_unix2date example_env 1000, li_type = ''directory'',
                  li_size = 4096\<rparr>
       \<in> set (sent (list_entries example_env
              [\<lparr>d_name = ''.'', d_type = DT_DIR\<rparr>, \<lparr>d_name = ''..'', d_type = DT_DIR\<rparr>]
              ''/b/'' ''/www/b/'' example_client))"
proof -
  have h1: "cstr (d_name \<lparr>d_name = ''..'', d_type = DT_DIR\<rparr>) \<noteq> ''.''"
    by (simp add: cstr_def NUL_def)
  have h2: "uh_stat example_env (''/www/b/'' @ d_name \<lparr>d_name = ''..'', d_type = DT_DIR\<rparr>)
              = Some example_dir"
    by (simp add: uh_stat_def example_env_def example_fs_def)
  have h3: "list_entries_loop example_env ''/b/'' ''/www/b/'' entry_vars_init
        [\<lparr>d_name = ''.'', d_type = DT_DIR\<rparr>] example_client = (entry_vars_init, example_client)"
    by (simp add: is_self_entry_def peek_def NUL_def)
  have h4: "entry_vars_init =
      (if d_type \<lparr>d_name = ''..'', d_type = DT_DIR\<rparr> AND DT_DIR \<noteq> 0 then entry_vars_init
       else \<lparr>suffix = [],
              type = uh_file_mime_lookup example_env
                       (''/www/b/'' @ d_name \<lparr>d_name = ''..'', d_type = DT_DIR\<rparr>),
              mode = S_IROTH\<rparr>)"
    by (simp add: DT_DIR_def)
  have h5: "st_mode example_dir AND mode entry_vars_init \<noteq> 0"
    by (simp add: example_dir_def entry_vars_init_def S_IXOTH_def)
  show ?thesis
    using h1 h2 h3 h5 list_entries_excludes_only_self [OF h1 h2 h3 h4 h5, of "[]"]
    by (simp add: entry_vars_init_def example_dir_def)
qed

section \<open>Canonical paths\<close>

lemma segments_nonempty: "segments p \<noteq> []"
  by (cases p) simp_all

text \<open>
  The segments of a path, computed with one pass over the rest of the path.
\<close>

lemma segments_code [code]:
  "segments [] = [[]]"
  "segments (c # cs) =
     (if c = CHR ''/'' then [] # segments cs
      else (case segments cs of s # ss \<Rightarrow> (c # s) # ss | [] \<Rightarrow> [[c]]))"
  using segments_nonempty [of cs] by (simp_all split: list.splits)

lemma repeated_separator_tl: "\<not> repeated_separator (c # cs) \<Longrightarrow> \<not> repeated_separator cs"
  by (cases cs) simp_all

lemma peek_Cons_0: "peek (c # cs) 0 = c"
  by (simp add: peek_def)

lemma peek_Cons_Suc: "peek (c # cs) (Suc k) = peek cs k"
  by (simp add: peek_def)

lemma peek_Nil: "peek [] k = NUL"
  by (simp add: peek_def)

lemma peek_end: "NUL \<notin> set cs \<Longrightarrow> peek cs 0 = CHR ''/'' \<or> peek cs 0 = NUL \<Longrightarrow> hd (segments cs) = []"
  by (cases cs) (auto simp: peek_def)

lemma dot_segment:
  assumes "NUL \<notin> set cs" "peek cs 0 = CHR ''.''" "peek cs 1 = CHR ''/'' \<or> peek cs 1 = NUL"
  shows "hd (segments cs) = ''.''"
proof -
  from assms(2) obtain r where cs: "cs = CHR ''.'' # r"
    by (cases cs) (auto simp: peek_def NUL_def)
  with assms have "hd (segments r) = []"
    by (intro peek_end) (auto simp: peek_Cons_Suc)
  with cs show ?thesis by simp
qed

lemma dotdot_segment:
  assumes "NUL \<notin> set cs" "peek cs 0 = CHR ''.''" "peek cs 1 = CHR ''.''"
    "peek cs 2 = CHR ''/'' \<or> peek cs 2 = NUL"
  shows "hd (segments cs) = ''..''"
proof -
  from assms(2) obtain r where cs: "cs = CHR ''.'' # r"
    by (cases cs) (auto simp: peek_def NUL_def)
  from assms(3) cs obtain r2 where r: "r = CHR ''.'' # r2"
    by (cases r) (auto simp: peek_def NUL_def)
  have "peek cs 2 = peek r2 0"
    by (simp add: cs r peek_def)
  with assms cs r have "hd (segments r2) = []"
    by (intro peek_end) auto
  with cs r show ?thesis by simp
qed

lemma canon_loop_canonical:
  assumes "NUL \<notin> set q" "\<not> repeated_separator q"
    "''.'' \<notin> set (tl (segments q))" "''..'' \<notin> set (tl (segments q))"
    "q = [] \<or> last q \<noteq> CHR ''/''" "length q \<le> n"
  shows "canon_loop n q res = res @ q"
  using assms
proof (induction q arbitrary: n res)
  case Nil
  then show ?case by simp
next
  case (Cons c cs)
  have c0: "c \<noteq> NUL" and n0: "n \<noteq> 0" using Cons.prems by auto
  have nul: "NUL \<notin> set cs" using Cons.prems by simp
  have rep: "\<not> repeated_separator cs" using Cons.prems(2) by (rule repeated_separator_tl)
  have lst: "cs = [] \<or> last cs \<noteq> CHR ''/''" using Cons.prems(5) by (cases cs) auto
  have len: "length cs \<le> n - 1" using Cons.prems(6) by simp
  show ?case
  proof (cases "c = CHR ''/''")
    case False
    have "''.'' \<notin> set (tl (segments cs))" "''..'' \<notin> set (tl (segments cs))"
      using Cons.prems(3,4) False by simp_all
    from Cons.IH [OF nul rep this lst len, of "res @ [c]"] False c0 n0
    show ?thesis by simp
  next
    case True
    have seg: "''.'' \<notin> set (segments cs)" "''..'' \<notin> set (segments cs)"
      using Cons.prems(3,4) True by simp_all
    then have hdseg: "hd (segments cs) \<noteq> ''.''" "hd (segments cs) \<noteq> ''..''"
      using segments_nonempty [of cs] hd_in_set by metis+
    have tlseg: "''.'' \<notin> set (tl (segments cs))" "''..'' \<notin> set (tl (segments cs))"
      using seg by (auto dest: list.set_sel(2) [OF segments_nonempty])
    have ne: "cs \<noteq> []" using Cons.prems(5) True by auto
    then obtain d ds where cs: "cs = d # ds" by (cases cs) auto
    have p0: "peek cs 0 \<noteq> CHR ''/''"
      using Cons.prems(2) True cs by (auto simp: peek_def)
    have p1: "\<not> (peek cs 0 = CHR ''.'' \<and> (peek cs 1 = CHR ''/'' \<or> peek cs 1 = NUL))"
      using dot_segment [OF nul] hdseg by auto
    have p2: "\<not> (peek cs 0 = CHR ''.'' \<and> peek cs 1 = CHR ''.''
              \<and> (peek cs 2 = CHR ''/'' \<or> peek cs 2 = NUL))"
      using dotdot_segment [OF nul] hdseg by auto
    have "canon_loop n (c # cs) res = canon_loop (n - 1) cs (res @ [c])"
      using True c0 n0 p0 p1 p2 by auto
    with Cons.IH [OF nul rep tlseg lst len, of "res @ [c]"]
    show ?thesis by simp
  qed
qed

lemma path_pop_length: "length (path_pop res) \<le> length res"
proof -
  have "length (tl (dropWhile (\<lambda>c. c \<noteq> CHR ''/'') (rev res)))
          \<le> length (dropWhile (\<lambda>c. c \<noteq> CHR ''/'') (rev res))"
    by simp
  also have "\<dots> \<le> length (rev res)"
    by (rule length_dropWhile_le)
  finally show ?thesis by (simp add: path_pop_def)
qed

lemma canon_loop_length: "length (canon_loop n q res) \<le> length res + n"
proof (induction n q res rule: canon_loop.induct)
  case (1 n res)
  then show ?case by simp
next
  case (2 n c cs res)
  show ?case
  proof (cases "c = NUL \<or> n = 0")
    case True
    then show ?thesis by auto
  next
    case stop: False
    show ?thesis
    proof (cases "c \<noteq> CHR ''/''")
      case True
      with stop 2(1) show ?thesis by auto
    next
      case slash: False
      show ?thesis
      proof (cases "peek cs 0 = CHR ''/''")
        case True
        with stop slash 2(2) show ?thesis by auto
      next
        case nodbl: False
        show ?thesis
        proof (cases "peek cs 0 = CHR ''.'' \<and> (peek cs 1 = CHR ''/'' \<or> peek cs 1 = NUL)")
          case True
          with stop slash nodbl 2(3) have
            "length (canon_loop n (c # cs) res) \<le> length res + (n - 2)" by auto
          then show ?thesis by linarith
        next
          case nodot: False
          show ?thesis
          proof (cases "peek cs 0 = CHR ''.'' \<and> peek cs 1 = CHR ''.''
              \<and> (peek cs 2 = CHR ''/'' \<or> peek cs 2 = NUL)")
            case True
            with stop slash nodbl nodot 2(4) have
              "length (canon_loop n (c # cs) res) \<le> length (path_pop res) + (n - 3)" by auto
            with path_pop_length [of res] show ?thesis by linarith
          next
            case False
            with stop slash nodbl nodot 2(5) show ?thesis by auto
          qed
        qed
      qed
    qed
  qed
qed

lemma canon_finish_length: "length (canon_finish res) \<le> max 1 (length res)"
  by (simp add: canon_finish_def)

lemma canonpath_length:
  "\<not> no_symlinks cf \<Longrightarrow> length (snd (canonpath e cf p)) \<le> max 1 (PATH_MAX e - 2)"
  using canon_finish_length [of "canon_loop (PATH_MAX e - 2) p []"]
        canon_loop_length [of "PATH_MAX e - 2" p "[]"]
  by (simp add: canonpath_def)

lemma segments_replicate:
  "a \<noteq> CHR ''/'' \<Longrightarrow> segments (replicate k a) = [replicate k a]"
  by (induction k) simp_all

lemma repeated_separator_replicate:
  "a \<noteq> CHR ''/'' \<Longrightarrow> \<not> repeated_separator (c # replicate k a)"
  by (induction k arbitrary: c) simp_all

text \<open>
  C8, as stated, fails on two canonical inputs: the empty path, which \<open>canonpath\<close> turns
  into the root, and a path of 4095 bytes under \<open>PATH_MAX = 4096\<close>, of which the loop
  reads only the first \<open>PATH_MAX - 2\<close> bytes.
\<close>

theorem canonpath_empty_and_overlong:
  "canonical []
   \<and> snd (canonpath example_env example_conf []) \<noteq> []
   \<and> canonical (CHR ''/'' # replicate 4094 (CHR ''a''))
   \<and> snd (canonpath example_env example_conf (CHR ''/'' # replicate 4094 (CHR ''a'')))
       \<noteq> CHR ''/'' # replicate 4094 (CHR ''a'')"
proof -
  have c1: "canonical []" by (simp add: canonical_def)
  have c2: "snd (canonpath example_env example_conf []) \<noteq> []"
    by (simp add: canonpath_def example_conf_def canon_finish_def)
  have long: "length (CHR ''/'' # replicate 4094 (CHR ''a'')) = 4095"
    by simp
  have nd: "replicate 4094 (CHR ''a'') \<noteq> ''.''"
  proof
    assume "replicate 4094 (CHR ''a'') = ''.''"
    then have "length (replicate 4094 (CHR ''a'')) = length ''.''" by (rule arg_cong)
    then show False by simp
  qed
  have ndd: "replicate 4094 (CHR ''a'') \<noteq> ''..''"
  proof
    assume "replicate 4094 (CHR ''a'') = ''..''"
    then have "length (replicate 4094 (CHR ''a'')) = length ''..''" by (rule arg_cong)
    then show False by simp
  qed
  have ne: "replicate 4094 (CHR ''a'') \<noteq> []"
  proof
    assume "replicate 4094 (CHR ''a'') = []"
    then have "length (replicate 4094 (CHR ''a'')) = length ([] :: string)" by (rule arg_cong)
    then show False by simp
  qed
  have lst: "last (CHR ''/'' # replicate 4094 (CHR ''a'')) = CHR ''a''"
    using ne by (simp add: last_replicate)
  have c3: "canonical (CHR ''/'' # replicate 4094 (CHR ''a''))"
    using nd ndd lst
    by (simp add: canonical_def segments_replicate repeated_separator_replicate)
  have "length (snd (canonpath example_env example_conf (CHR ''/'' # replicate 4094 (CHR ''a''))))
          \<le> max 1 (PATH_MAX example_env - 2)"
    by (rule canonpath_length) (simp add: example_conf_def)
  then have short: "length (snd (canonpath example_env example_conf
                      (CHR ''/'' # replicate 4094 (CHR ''a'')))) \<le> 4094"
    by (simp add: example_env_def)
  have c4: "snd (canonpath example_env example_conf (CHR ''/'' # replicate 4094 (CHR ''a'')))
       \<noteq> CHR ''/'' # replicate 4094 (CHR ''a'')"
  proof
    assume "snd (canonpath example_env example_conf (CHR ''/'' # replicate 4094 (CHR ''a'')))
       = CHR ''/'' # replicate 4094 (CHR ''a'')"
    then have "length (snd (canonpath example_env example_conf
                  (CHR ''/'' # replicate 4094 (CHR ''a''))))
       = length (CHR ''/'' # replicate 4094 (CHR ''a''))"
      by (rule arg_cong)
    with short long show False by linarith
  qed
  from c1 c2 c3 c4 show ?thesis by blast
qed

text \<open>
  C8, amended: in the default mode \<open>canonpath\<close> returns every canonical path that is not
  empty and not longer than \<open>PATH_MAX - 2\<close> bytes unchanged.
\<close>

theorem canonpath_canonical_unchanged:
  assumes "canonical p" and "NUL \<notin> set p" and "p \<noteq> []"
    and "length p \<le> PATH_MAX e - 2" and "\<not> no_symlinks cf"
  shows "canonpath e cf p = (True, p)"
proof (cases "p = ''/''")
  case True
  with assms(4,5) show ?thesis
    by (cases "PATH_MAX e - 2") (simp_all add: canonpath_def canon_finish_def peek_def NUL_def)
next
  case False
  with assms have lst: "last p \<noteq> CHR ''/''" by (simp add: canonical_def)
  have tls: "''.'' \<notin> set (tl (segments p))" "''..'' \<notin> set (tl (segments p))"
    using assms(1) by (auto simp: canonical_def dest: list.set_sel(2) [OF segments_nonempty])
  have "canon_loop (PATH_MAX e - 2) p [] = [] @ p"
    using assms(1,2,4) lst tls by (intro canon_loop_canonical) (simp_all add: canonical_def)
  then show ?thesis
    using assms(3,5) lst by (simp add: canonpath_def canon_finish_def)
qed

text \<open>
  C8, an instance: the path \<open>/www/b\<close>.
\<close>

theorem canonpath_canonical_unchanged_witness:
  "canonical ''/www/b'' \<and> NUL \<notin> set ''/www/b'' \<and> ''/www/b'' \<noteq> []
   \<and> length ''/www/b'' \<le> PATH_MAX example_env - 2 \<and> \<not> no_symlinks example_conf
   \<and> canonpath example_env example_conf ''/www/b'' = (True, ''/www/b'')"
proof -
  have h1: "canonical ''/www/b''" by (simp add: canonical_def)
  have h2: "NUL \<notin> set ''/www/b''" by (simp add: NUL_def)
  have h3: "''/www/b'' \<noteq> []" by simp
  have h4: "length ''/www/b'' \<le> PATH_MAX example_env - 2" by (simp add: example_env_def)
  have h5: "\<not> no_symlinks example_conf" by (simp add: example_conf_def)
  show ?thesis
    using h1 h2 h3 h4 h5 canonpath_canonical_unchanged [OF h1 h2 h3 h4 h5] by simp
qed

section \<open>The looked-up path and the document root\<close>

lemma path_pop_subset: "set (path_pop res) \<subseteq> set res"
proof
  fix x assume "x \<in> set (path_pop res)"
  then have "x \<in> set (tl (dropWhile (\<lambda>c. c \<noteq> CHR ''/'') (rev res)))"
    by (simp add: path_pop_def)
  then have "x \<in> set (dropWhile (\<lambda>c. c \<noteq> CHR ''/'') (rev res))"
    by (cases "dropWhile (\<lambda>c. c \<noteq> CHR ''/'') (rev res) = []")
       (simp_all add: list.set_sel(2))
  then have "x \<in> set (rev res)"
    by (rule set_dropWhileD)
  then show "x \<in> set res" by simp
qed

lemma canon_loop_invariant:
  assumes "P res"
    and app: "\<And>r c. P r \<Longrightarrow> c \<noteq> NUL \<Longrightarrow> P (r @ [c])"
    and pop: "\<And>r. P r \<Longrightarrow> P (path_pop r)"
  shows "P (canon_loop n q res)"
  using assms(1)
proof (induction n q res rule: canon_loop.induct)
  case (1 n res)
  then show ?case by simp
next
  case (2 n c cs res)
  show ?case
  proof (cases "c = NUL \<or> n = 0")
    case True
    with 2(6) show ?thesis by auto
  next
    case stop: False
    then have c0: "c \<noteq> NUL" by simp
    show ?thesis
    proof (cases "c \<noteq> CHR ''/''")
      case True
      with stop 2(1) [OF stop True app [OF 2(6) c0]] show ?thesis by auto
    next
      case slash: False
      show ?thesis
      proof (cases "peek cs 0 = CHR ''/''")
        case True
        with stop slash 2(2) [OF stop slash True 2(6)] show ?thesis by auto
      next
        case nodbl: False
        show ?thesis
        proof (cases "peek cs 0 = CHR ''.'' \<and> (peek cs 1 = CHR ''/'' \<or> peek cs 1 = NUL)")
          case True
          with stop slash nodbl 2(3) [OF stop slash nodbl True 2(6)] show ?thesis by auto
        next
          case nodot: False
          show ?thesis
          proof (cases "peek cs 0 = CHR ''.'' \<and> peek cs 1 = CHR ''.''
              \<and> (peek cs 2 = CHR ''/'' \<or> peek cs 2 = NUL)")
            case True
            with stop slash nodbl nodot 2(4) [OF stop slash nodbl nodot True pop [OF 2(6)]]
            show ?thesis by auto
          next
            case False
            with stop slash nodbl nodot 2(5) [OF stop slash nodbl nodot False app [OF 2(6) c0]]
            show ?thesis by auto
          qed
        qed
      qed
    qed
  qed
qed

lemma canon_loop_NUL_free:
  assumes "NUL \<notin> set res"
  shows "NUL \<notin> set (canon_loop n q res)"
proof (rule canon_loop_invariant [where P = "\<lambda>r. NUL \<notin> set r"])
  show "NUL \<notin> set res" by (rule assms)
next
  fix r c assume "NUL \<notin> set r" "c \<noteq> NUL"
  then show "NUL \<notin> set (r @ [c])" by auto
next
  fix r assume "NUL \<notin> set r"
  then show "NUL \<notin> set (path_pop r)" using path_pop_subset [of r] by auto
qed

lemma canon_finish_NUL_free: "NUL \<notin> set res \<Longrightarrow> NUL \<notin> set (canon_finish res)"
  by (auto simp: canon_finish_def NUL_def dest: in_set_butlastD)

lemma canonpath_NUL_free: "NUL \<notin> set (snd (canonpath e cf p))"
  by (simp add: canonpath_def cstr_NUL_free canon_finish_NUL_free canon_loop_NUL_free
      split: option.splits)

lemma check_contained:
  assumes pp: "NUL \<notin> set pp" and root: "NUL \<notin> set root"
    and cmp: "strncmp_eq pp root (length root)"
    and nxt: "peek pp (length root) = NUL \<or> peek pp (length root) = CHR ''/''"
  shows "contained root pp"
proof -
  have "take (length root) pp = root"
    using cmp cstr_id [OF pp] cstr_id [OF root] by (simp add: strncmp_eq_def)
  then have pre: "prefix root pp"
    by (metis take_is_prefix)
  then obtain zs where zs: "pp = root @ zs" by (auto simp: prefix_def)
  show ?thesis
  proof (cases zs)
    case Nil
    with zs pre show ?thesis by (simp add: contained_def)
  next
    case (Cons z zs')
    with zs have "peek pp (length root) = z" by (simp add: peek_def)
    moreover have "z \<noteq> NUL" using pp zs Cons by auto
    ultimately have "peek pp (length root) = CHR ''/''" using nxt by simp
    with pre show ?thesis by (simp add: contained_def)
  qed
qed

lemma ensure_slash_last:
  "x \<noteq> [] \<Longrightarrow> ensure_slash x \<noteq> [] \<and> last (ensure_slash x) = CHR ''/''"
  by (simp add: ensure_slash_def)

lemma contained_ensure_slash:
  assumes "contained root x" "x \<noteq> []"
  shows "contained root (ensure_slash x)"
proof (cases "last x \<noteq> CHR ''/''")
  case False
  with assms show ?thesis by (simp add: ensure_slash_def)
next
  case True
  from assms(1) obtain zs where zs: "x = root @ zs" by (auto simp: contained_def prefix_def)
  have "peek (x @ ''/'') (length root) = CHR ''/''"
    if "x = root \<or> peek x (length root) = CHR ''/''"
    using that zs by (cases zs) (auto simp: peek_def nth_append)
  with assms(1) True show ?thesis
    by (auto simp: ensure_slash_def contained_def)
qed

lemma contained_append:
  assumes "contained root x" "x \<noteq> []" "last x = CHR ''/''"
  shows "contained root (x @ name)"
proof -
  from assms(1) obtain zs where zs: "x = root @ zs" by (auto simp: contained_def prefix_def)
  have "peek (x @ name) (length root) = CHR ''/''" if "peek x (length root) = CHR ''/''"
    using that zs by (cases zs) (auto simp: peek_def nth_append NUL_def)
  moreover have "root \<noteq> [] \<and> last root = CHR ''/''" if "x = root"
    using that assms(2,3) by simp
  ultimately show ?thesis
    using assms(1) by (auto simp: contained_def)
qed

lemma contained_within_root:
  assumes "contained root phys"
  shows "prefix root phys \<and> (within_root root phys \<or> (root \<noteq> [] \<and> last root = CHR ''/''))"
proof -
  from assms obtain zs where zs: "phys = root @ zs" by (auto simp: contained_def prefix_def)
  have "prefix (root @ ''/'') phys" if "peek phys (length root) = CHR ''/''"
    using that zs by (cases zs) (auto simp: peek_def NUL_def)
  with assms show ?thesis
    by (auto simp: contained_def within_root_def)
qed

lemma try_index_shape:
  "try_index e base len names = Some (path, s) \<Longrightarrow> \<exists>name\<in>set names. path = base @ name"
  by (induction names) (auto split: if_splits option.splits)


lemma lookup_dir_shape:
  assumes "lookup_dir e index_files cl root query slash st pp = (Some (p, phys), cl')"
  shows "(phys = ensure_slash pp \<and> pi_phys p = None \<and> pi_redirected p)
       \<or> (\<exists>name. (name = [] \<or> name \<in> set index_files)
             \<and> phys = ensure_slash pp @ name \<and> pi_phys p = Some phys)"
proof (cases slash)
  case False
  with assms show ?thesis
    by (auto simp: lookup_dir_def Let_def path_info_zero_def)
next
  case True
  show ?thesis
  proof (cases "try_index e (ensure_slash pp)
                  (int (PATH_MAX e) - int (length (ensure_slash pp)) - 1) index_files")
    case None
    with True assms have "phys = ensure_slash pp @ [] \<and> pi_phys p = Some phys"
      by (auto simp: lookup_dir_def Let_def)
    then show ?thesis by blast
  next
    case (Some r)
    obtain path_idx s where r: "r = (path_idx, s)" by (cases r)
    from try_index_shape [OF Some [unfolded r]] obtain name
      where "name \<in> set index_files" "path_idx = ensure_slash pp @ name" by blast
    moreover from True assms Some r have "phys = path_idx \<and> pi_phys p = Some phys"
      by (auto simp: lookup_dir_def Let_def)
    ultimately show ?thesis by blast
  qed
qed

lemma lookup_stat_shape:
  assumes "lookup_stat e index_files cl root query slash pp pinfo = (Some (p, phys), cl')"
  shows "pp \<noteq> [] \<and> strncmp_eq pp root (length root)
      \<and> (peek pp (length root) = NUL \<or> peek pp (length root) = CHR ''/'')
      \<and> ((phys = pp \<and> pi_phys p = Some phys)
           \<or> (phys = ensure_slash pp \<and> pi_phys p = None \<and> pi_redirected p)
           \<or> (\<exists>name. (name = [] \<or> name \<in> set index_files)
                 \<and> phys = ensure_slash pp @ name \<and> pi_phys p = Some phys))"
proof -
  have chk: "strncmp_eq pp root (length root)"
    "peek pp (length root) = NUL \<or> peek pp (length root) = CHR ''/''"
    using assms by (auto simp: lookup_stat_def Let_def split: if_splits)
  then have rest: "(case uh_stat e pp of
              None \<Rightarrow> (None, cl)
            | Some st \<Rightarrow>
                if st_mode st AND S_IFREG \<noteq> 0 then
                  (Some (path_info_zero
                           \<lparr>pi_query := query, pi_stat := st, pi_root := Some root,
                            pi_phys := Some pp,
                            pi_name := Some (drop (length root) pp),
                            pi_info := (if pinfo \<noteq> [] then Some pinfo else None)\<rparr>,
                         pp), cl)
                else if st_mode st AND S_IFDIR = 0 then (None, cl)
                else if pinfo \<noteq> [] then (None, cl)
                else lookup_dir e index_files cl root query slash st pp) = (Some (p, phys), cl')"
    using assms by (auto simp: lookup_stat_def Let_def split: if_splits)
  then obtain st where st: "uh_stat e pp = Some st"
    by (cases "uh_stat e pp") auto
  then have ne: "pp \<noteq> []"
    by (auto simp: uh_stat_def split: if_splits)
  show ?thesis
  proof (cases "st_mode st AND S_IFREG \<noteq> 0")
    case True
    with rest st have "phys = pp \<and> pi_phys p = Some phys" by auto
    with chk ne show ?thesis by blast
  next
    case False
    with rest st have "lookup_dir e index_files cl root query slash st pp = (Some (p, phys), cl')"
      by (auto split: if_splits)
    from lookup_dir_shape [OF this] chk ne show ?thesis by blast
  qed
qed

lemma lookup_canon_NUL_free: "NUL \<notin> set (fst (lookup_canon e cf buf))"
  by (simp add: lookup_canon_def canonpath_NUL_free split: option.splits)

text \<open>
  What the test under \<open>check whether found path is within docroot\<close> and the steps
  after it ensure, for every URL, every decoder and both modes of \<open>canonpath\<close>: whenever
  \<open>uh_path_lookup\<close> returns a result, the path in \<open>path_phys\<close> starts with the document
  root, and it is the root or starts with the root followed by a separator, unless the
  root itself ends with a separator. The field \<open>phys\<close> of the result points to that path,
  except in a redirected result, where it is left NULL. The test compares bytes: it does
  not look at the segments behind the root.
\<close>

lemma lookup_result_prefix:
  assumes "uh_path_lookup e cf index_files cl url = (Some (p, phys), cl')"
  shows "prefix (cstr (docroot cf)) phys
     \<and> (within_root (cstr (docroot cf)) phys
          \<or> (cstr (docroot cf) \<noteq> [] \<and> last (cstr (docroot cf)) = CHR ''/''))
     \<and> (pi_phys p = Some phys \<or> (pi_phys p = None \<and> pi_redirected p))"
proof -
  define root where "root = cstr (docroot cf)"
  from assms obtain url_bytes where url: "url = Some url_bytes"
    by (cases url) (simp_all add: uh_path_lookup_def)
  define u where "u = cstr url_bytes"
  define blen where "blen = int (sizeof_uh_buf e) - int (length root) - 1"
  from assms url obtain d where d: "url_decode_path e blen u = Some d"
    by (cases "url_decode_path e blen u")
       (simp_all add: uh_path_lookup_def Let_def root_def u_def blen_def)
  define uh_buf where "uh_buf = root @ cstr d"
  obtain pp pinfo where canon: "lookup_canon e cf uh_buf = (pp, pinfo)"
    by (cases "lookup_canon e cf uh_buf")
  have "lookup_stat e index_files cl root (url_query u)
          (length uh_buf \<noteq> 0 \<and> last uh_buf = CHR ''/'') pp pinfo = (Some (p, phys), cl')"
    using assms url d canon
    by (simp add: uh_path_lookup_def Let_def root_def [symmetric] u_def [symmetric]
          blen_def [symmetric] uh_buf_def [symmetric])
  from lookup_stat_shape [OF this] have
    ne: "pp \<noteq> []" and cmp: "strncmp_eq pp root (length root)"
    and nxt: "peek pp (length root) = NUL \<or> peek pp (length root) = CHR ''/''"
    and shape: "(phys = pp \<and> pi_phys p = Some phys)
           \<or> (phys = ensure_slash pp \<and> pi_phys p = None \<and> pi_redirected p)
           \<or> (\<exists>name. (name = [] \<or> name \<in> set index_files)
                 \<and> phys = ensure_slash pp @ name \<and> pi_phys p = Some phys)"
    by blast+
  have nul: "NUL \<notin> set pp"
    using lookup_canon_NUL_free [of e cf uh_buf] canon by simp
  have rootnul: "NUL \<notin> set root"
    by (simp add: root_def cstr_NUL_free)
  have c0: "contained root pp"
    using nul rootnul cmp nxt by (rule check_contained)
  have c1: "contained root (ensure_slash pp)"
    using c0 ne by (rule contained_ensure_slash)
  have c2: "contained root (ensure_slash pp @ name)" for name
    using c1 ensure_slash_last [OF ne] by (intro contained_append) simp_all
  from shape c0 c1 c2 have "contained root phys" by auto
  from contained_within_root [OF this] shape show ?thesis
    unfolding root_def by blast
qed

section \<open>The redirect to a directory\<close>

lemma find_break_end: "find_break buf (length buf) = Some (length buf)"
  by (cases "length buf") (simp_all add: peek_def)

lemma lookup_canon_fits:
  assumes "length buf < PATH_MAX e"
  shows "lookup_canon e cf buf = (snd (canonpath e cf buf), [])"
proof -
  have "min (length buf) (PATH_MAX e - 1) = length buf"
    using assms by simp
  then show ?thesis
    by (simp add: lookup_canon_def find_break_end)
qed

text \<open>
  What the redirect sends. Let the decoded request path, put behind the document root,
  fit into \<open>path_phys\<close> and not end with a separator, and let what \<open>canonpath\<close> makes of
  it pass the test of the document root and be a directory. Then \<open>uh_path_lookup\<close>
  returns a redirected result and sends one 302 status line, one \<open>Location\<close> header and
  the end of the request. The \<open>Location\<close> is \<open>path_phys\<close> behind the document root, ending
  in a separator, followed by \<open>?\<close> and the query string when the query string is not
  empty.
\<close>

lemma lookup_redirect:
  assumes dec: "url_decode_path e
                  (int (sizeof_uh_buf e) - int (length (cstr (docroot cf))) - 1) (cstr url) = Some d"
    and fits: "length (cstr (docroot cf) @ cstr d) < PATH_MAX e"
    and noslash: "cstr (docroot cf) @ cstr d = [] \<or> last (cstr (docroot cf) @ cstr d) \<noteq> CHR ''/''"
    and canon: "snd (canonpath e cf (cstr (docroot cf) @ cstr d)) = pp"
    and inroot: "strncmp_eq pp (cstr (docroot cf)) (length (cstr (docroot cf)))"
      "peek pp (length (cstr (docroot cf))) = NUL \<or> peek pp (length (cstr (docroot cf))) = CHR ''/''"
    and dir: "uh_stat e pp = Some st" "st_mode st AND S_IFREG = 0" "st_mode st AND S_IFDIR \<noteq> 0"
  shows "uh_path_lookup e cf index_files cl (Some url) =
           (Some (path_info_zero\<lparr>pi_query := url_query (cstr url), pi_stat := st,
                                   pi_redirected := True\<rparr>,
                  ensure_slash pp),
            cl\<lparr>sent := sent cl @
               [HttpHeader 302 ''Found'',
                UstreamPrintf (''Location: '' @ drop (length (cstr (docroot cf))) (ensure_slash pp)
                  @ (case url_query (cstr url) of None \<Rightarrow> [] | Some q \<Rightarrow> ''?'' @ q)
                  @ CRLF @ CRLF),
                RequestDone]\<rparr>)"
proof -
  define root where "root = cstr (docroot cf)"
  define query where "query = url_query (cstr url)"
  have lc: "lookup_canon e cf (root @ cstr d) = (pp, [])"
    using fits canon by (simp add: lookup_canon_fits root_def)
  have slash: "root @ cstr d = [] \<or> last (root @ cstr d) \<noteq> CHR ''/''"
    using noslash by (simp add: root_def)
  have q: "(if query \<noteq> None then ''?'' else []) @ (case query of Some q \<Rightarrow> q | None \<Rightarrow> [])
         = (case query of None \<Rightarrow> [] | Some q \<Rightarrow> ''?'' @ q)"
    by (cases query) simp_all
  have ld: "lookup_dir e index_files cl root query False st pp =
           (Some (path_info_zero\<lparr>pi_query := query, pi_stat := st, pi_redirected := True\<rparr>,
                  ensure_slash pp),
            cl\<lparr>sent := sent cl @
               [HttpHeader 302 ''Found'',
                UstreamPrintf (''Location: '' @ drop (length root) (ensure_slash pp)
                  @ (case query of None \<Rightarrow> [] | Some q \<Rightarrow> ''?'' @ q)
                  @ CRLF @ CRLF),
                RequestDone]\<rparr>)"
    unfolding q [symmetric]
    by (simp add: lookup_dir_def Let_def uh_request_done_def ustream_printf_def
          uh_http_header_def)
  have ls: "lookup_stat e index_files cl root query False pp [] =
              lookup_dir e index_files cl root query False st pp"
    using inroot dir by (auto simp: lookup_stat_def Let_def root_def)
  have "uh_path_lookup e cf index_files cl (Some url) =
          lookup_stat e index_files cl root query False pp []"
    using dec lc slash
    by (auto simp: uh_path_lookup_def Let_def root_def [symmetric] query_def [symmetric])
  with ls ld show ?thesis
    unfolding root_def query_def by simp
qed

text \<open>
  C5: the \<open>Location\<close> of the redirect should be the path of the request with one
  separator appended, followed by the query string, and the comment in the source says
  \<open>redirect the client to the same url with trailing slash appended\<close>. The code prints
  \<open>path_phys\<close> behind the document root instead, which is the decoded path in canonical
  form. For the URL \<open>/a/../b?x=1\<close> the \<open>Location\<close> is \<open>/b/?x=1\<close>, not \<open>/a/../b/?x=1\<close>.
  For the URL \<open>/a%3Fb\<close>, which names the directory \<open>a?b\<close>, the \<open>Location\<close> is \<open>/a?b/\<close>: the
  question mark has lost its escape, so a client that follows the redirect asks for the
  path \<open>/a\<close> with the query string \<open>b/\<close>, and that lookup returns NULL.
\<close>

theorem uh_path_lookup_redirect_location:
  "sent (snd (uh_path_lookup example_env example_conf [''index.html''] example_client
                (Some ''/a/../b?x=1'')))
     = [HttpHeader 302 ''Found'', UstreamPrintf (''Location: /b/?x=1'' @ CRLF @ CRLF), RequestDone]
   \<and> sent (snd (uh_path_lookup example_env example_conf [''index.html''] example_client
                (Some ''/a%3Fb'')))
     = [HttpHeader 302 ''Found'', UstreamPrintf (''Location: /a?b/'' @ CRLF @ CRLF), RequestDone]
   \<and> fst (uh_path_lookup example_env example_conf [''index.html''] example_client
                (Some ''/a?b/'')) = None
   \<and> UstreamPrintf (''Location: /a/../b/?x=1'' @ CRLF @ CRLF)
       \<notin> set (sent (snd (uh_path_lookup example_env example_conf [''index.html'']
                              example_client (Some ''/a/../b?x=1''))))"
  by code_simp

section \<open>Results within the bound of the loop\<close>

text \<open>
  The segments of a path that is put together from two parts, and of the output of
  \<open>path_pop\<close>.
\<close>

lemma segments_slash_append:
  "segments (a @ CHR ''/'' # b) = segments a @ segments b"
proof (induction a)
  case Nil
  then show ?case by simp
next
  case (Cons c a)
  show ?case
  proof (cases "c = CHR ''/''")
    case True
    with Cons show ?thesis by simp
  next
    case False
    have "segments a \<noteq> []" by (rule segments_nonempty)
    with Cons False show ?thesis by simp
  qed
qed

lemma segments_no_slash: "CHR ''/'' \<notin> set s \<Longrightarrow> segments s = [s]"
  by (induction s) auto

lemma hd_segments_no_slash: "CHR ''/'' \<notin> set (hd (segments q))"
  by (induction q) simp_all

lemma hd_segments_Nil: "hd (segments q) = [] \<Longrightarrow> q = [] \<or> hd q = CHR ''/''"
  by (cases q) (simp_all split: if_splits)

lemma dotdot_segment_conv:
  assumes "hd (segments cs) = ''..''"
  shows "peek cs 0 = CHR ''.'' \<and> peek cs 1 = CHR ''.''
     \<and> (peek cs 2 = CHR ''/'' \<or> peek cs 2 = NUL)"
proof -
  from assms obtain r where cs: "cs = CHR ''.'' # r" and r: "hd (segments r) = ''.''"
    by (cases cs) (auto split: if_splits)
  from r obtain r2 where r2: "r = CHR ''.'' # r2" and e: "hd (segments r2) = []"
    by (cases r) (auto split: if_splits)
  from hd_segments_Nil [OF e] have "peek r2 0 = CHR ''/'' \<or> peek r2 0 = NUL"
    by (cases r2) (auto simp: peek_def)
  then show ?thesis
    by (cases r2) (auto simp: cs r2 peek_def)
qed

lemma path_pop_segments: "set (tl (segments (path_pop res))) \<subseteq> set (tl (segments res))"
proof (cases "CHR ''/'' \<in> set res")
  case False
  then have dw: "dropWhile (\<lambda>c. c \<noteq> CHR ''/'') (rev res) = []"
    by auto
  have "path_pop res = []"
    unfolding path_pop_def dw by simp
  then show ?thesis
    by simp
next
  case True
  then have "CHR ''/'' \<in> set (rev res)" by simp
  then obtain ys zs where sp: "rev res = ys @ CHR ''/'' # zs" and ys: "CHR ''/'' \<notin> set ys"
    by (meson split_list_first)
  have dw: "dropWhile (\<lambda>c. c \<noteq> CHR ''/'') (rev res) = CHR ''/'' # zs"
    using ys unfolding sp by (auto simp: dropWhile_append3)
  have pop: "path_pop res = rev zs"
    by (simp add: path_pop_def dw)
  have "res = rev zs @ CHR ''/'' # rev ys"
    using sp by (metis rev_append rev.simps(2) rev_rev_ident append.assoc append_Cons append_Nil)
  then have "segments res = segments (rev zs) @ segments (rev ys)"
    by (simp only: segments_slash_append)
  then have "tl (segments res) = tl (segments (rev zs)) @ segments (rev ys)"
    using segments_nonempty [of "rev zs"] by simp
  then show ?thesis
    by (simp add: pop)
qed

text \<open>
  The invariant of the loop of \<open>canonpath\<close>: the output, continued by what is left of
  the segment being read, has no segment \<open>..\<close> behind its first segment. The loop writes
  a slash only when the segment behind it is not \<open>..\<close>, and it knows this from the bytes
  ahead. So the invariant holds for the output itself once the loop has read all of
  its input, which it does when the input has at most \<open>PATH_MAX - 2\<close> bytes.
\<close>

lemma canon_loop_no_dotdot:
  assumes "NUL \<notin> set q" and "length q \<le> n"
    and "''..'' \<notin> set (tl (segments (res @ hd (segments q))))"
  shows "''..'' \<notin> set (tl (segments (canon_loop n q res)))"
  using assms
proof (induction n q res rule: canon_loop.induct)
  case (1 n res)
  then show ?case by simp
next
  case (2 n c cs res)
  have stop: "\<not> (c = NUL \<or> n = 0)"
    using 2(6,7) by auto
  have nul: "NUL \<notin> set cs"
    using 2(6) by simp
  show ?case
  proof (cases "c \<noteq> CHR ''/''")
    case True
    have len: "length cs \<le> n - 1"
      using 2(7) by simp
    have eq: "(res @ [c]) @ hd (segments cs) = res @ hd (segments (c # cs))"
      using True by simp
    have inv: "''..'' \<notin> set (tl (segments ((res @ [c]) @ hd (segments cs))))"
      unfolding eq by (rule 2(8))
    from 2(1) [OF stop True nul len inv] stop True show ?thesis
            by auto
  next
    case slash: False
    have base: "''..'' \<notin> set (tl (segments res))"
      using 2(8) slash by simp
    show ?thesis
    proof (cases "peek cs 0 = CHR ''/''")
      case True
      have len: "length cs \<le> n - 1"
        using 2(7) by simp
      have "hd (segments cs) = []"
        using peek_end [OF nul] True by simp
      with base have inv: "''..'' \<notin> set (tl (segments (res @ hd (segments cs))))"
        by simp
      from 2(2) [OF stop slash True nul len inv] stop slash True show ?thesis
            by auto
    next
      case nodbl: False
      show ?thesis
      proof (cases "peek cs 0 = CHR ''.'' \<and> (peek cs 1 = CHR ''/'' \<or> peek cs 1 = NUL)")
        case True
        then obtain rest where cs: "cs = CHR ''.'' # rest"
          by (cases cs) (auto simp: peek_def NUL_def)
        have nulr: "NUL \<notin> set (drop 1 cs)"
          using nul cs by simp
        have len: "length (drop 1 cs) \<le> n - 2"
          using 2(7) cs by simp
        have "peek rest 0 = CHR ''/'' \<or> peek rest 0 = NUL"
          using True cs by (cases rest) (auto simp: peek_def)
        with nulr cs have "hd (segments (drop 1 cs)) = []"
          by (intro peek_end) simp_all
        with base have inv: "''..'' \<notin> set (tl (segments (res @ hd (segments (drop 1 cs)))))"
          by simp
        from 2(3) [OF stop slash nodbl True nulr len inv] stop slash nodbl True show ?thesis
            by auto
      next
        case nodot: False
        show ?thesis
        proof (cases "peek cs 0 = CHR ''.'' \<and> peek cs 1 = CHR ''.''
            \<and> (peek cs 2 = CHR ''/'' \<or> peek cs 2 = NUL)")
          case True
          then obtain r where cs: "cs = CHR ''.'' # r"
            by (cases cs) (auto simp: peek_def NUL_def)
          with True obtain rest where r: "r = CHR ''.'' # rest"
            by (cases r) (auto simp: peek_def NUL_def)
          have nulr: "NUL \<notin> set (drop 2 cs)"
            using nul cs r by simp
          have len: "length (drop 2 cs) \<le> n - 3"
            using 2(7) cs r by simp
          have "peek rest 0 = CHR ''/'' \<or> peek rest 0 = NUL"
            using True cs r by (cases rest) (auto simp: peek_def)
          with nulr cs r have h: "hd (segments (drop 2 cs)) = []"
            by (intro peek_end) simp_all
          have "''..'' \<notin> set (tl (segments (path_pop res)))"
            using base path_pop_segments [of res] by blast
          with h have inv:
            "''..'' \<notin> set (tl (segments (path_pop res @ hd (segments (drop 2 cs)))))"
            by simp
          from 2(4) [OF stop slash nodbl nodot True nulr len inv] stop slash nodbl nodot True
          show ?thesis
            by auto
        next
          case False
          have len: "length cs \<le> n - 1"
            using 2(7) by simp
          have ne: "hd (segments cs) \<noteq> ''..''"
            using dotdot_segment_conv [of cs] False by blast
          have "(res @ [c]) @ hd (segments cs) = res @ CHR ''/'' # hd (segments cs)"
            using slash by simp
          then have "segments ((res @ [c]) @ hd (segments cs))
              = segments res @ [hd (segments cs)]"
            by (simp only: segments_slash_append segments_no_slash [OF hd_segments_no_slash])
          then have "tl (segments ((res @ [c]) @ hd (segments cs)))
              = tl (segments res) @ [hd (segments cs)]"
            using segments_nonempty [of res] by simp
          with base ne have inv:
            "''..'' \<notin> set (tl (segments ((res @ [c]) @ hd (segments cs))))"
            by auto
          from 2(5) [OF stop slash nodbl nodot False nul len inv] stop slash nodbl nodot False
          show ?thesis
            by auto
        qed
      qed
    qed
  qed
qed

lemma canon_finish_no_dotdot:
  assumes "''..'' \<notin> set (tl (segments res))"
  shows "''..'' \<notin> set (tl (segments (canon_finish res)))"
proof (cases "length res > 1 \<and> last res = CHR ''/''")
  case True
  then have "res = butlast res @ CHR ''/'' # []"
    by (cases res rule: rev_cases) auto
  then have "segments res = segments (butlast res) @ segments []"
    by (metis segments_slash_append)
  then have "tl (segments res) = tl (segments (butlast res)) @ [[]]"
    using segments_nonempty [of "butlast res"] by simp
  with assms True show ?thesis
    by (simp add: canon_finish_def)
next
  case False
  with assms show ?thesis
    by (auto simp: canon_finish_def)
qed

lemma canonpath_no_dotdot:
  assumes "\<not> no_symlinks cf" "NUL \<notin> set path" "length path \<le> PATH_MAX e - 2"
  shows "''..'' \<notin> set (tl (segments (snd (canonpath e cf path))))"
proof -
  have "CHR ''/'' \<notin> set (hd (segments path))"
    by (rule hd_segments_no_slash)
  then have "segments ([] @ hd (segments path)) = [hd (segments path)]"
    by (simp add: segments_no_slash)
  then have "''..'' \<notin> set (tl (segments ([] @ hd (segments path))))"
    by simp
  from canon_loop_no_dotdot [OF assms(2,3) this] assms(1) show ?thesis
    by (simp add: canonpath_def canon_finish_no_dotdot)
qed

text \<open>
  A walk along segments without \<open>..\<close> stays below the directory it starts in. So a path
  that passes the test of the document root and has no segment \<open>..\<close> behind its first
  lies within the root.
\<close>

lemma walk_append: "walk dir (xs @ ys) = walk (walk dir xs) ys"
  by (induction xs arbitrary: dir) simp_all

lemma walk_prefix: "''..'' \<notin> set ss \<Longrightarrow> prefix dir (walk dir ss)"
proof (induction ss arbitrary: dir)
  case Nil
  then show ?case by simp
next
  case (Cons s ss)
  then have ih: "prefix d (walk d ss)" for d
    by simp
  show ?case
  proof (cases "s = [] \<or> s = ''.''")
    case True
    with ih [of dir] show ?thesis by auto
  next
    case False
    have "prefix dir (dir @ [s])"
      by simp
    also have "prefix (dir @ [s]) (walk (dir @ [s]) ss)"
      by (rule ih)
    finally show ?thesis
      using False Cons.prems by auto
  qed
qed

lemma walk_below:
  assumes "''..'' \<notin> set (tl (segments (a @ CHR ''/'' # b)))"
  shows "prefix (walk [] (segments a)) (walk [] (segments (a @ CHR ''/'' # b)))"
proof -
  have "tl (segments (a @ CHR ''/'' # b)) = tl (segments a) @ segments b"
    using segments_nonempty [of a] by (simp add: segments_slash_append)
  with assms have "''..'' \<notin> set (segments b)"
    by simp
  then have "prefix (walk [] (segments a)) (walk (walk [] (segments a)) (segments b))"
    by (rule walk_prefix)
  then show ?thesis
    by (simp add: segments_slash_append walk_append)
qed

lemma contained_lies_within:
  assumes "contained root pp" and "''..'' \<notin> set (tl (segments pp))"
  shows "lies_within root pp"
proof -
  from assms(1) obtain zs where pp: "pp = root @ zs"
    by (auto simp: contained_def prefix_def)
  show ?thesis
  proof (cases "zs = []")
    case True
    with pp show ?thesis
      by (simp add: lies_within_def)
  next
    case False
    then obtain z rest where zs: "zs = z # rest"
      by (cases zs) auto
    have at: "peek pp (length root) = z"
      by (simp add: pp zs peek_def)
    show ?thesis
    proof (cases "z = CHR ''/''")
      case True
      from assms(2) have "prefix (walk [] (segments root))
          (walk [] (segments (root @ CHR ''/'' # rest)))"
        unfolding pp zs True by (rule walk_below)
      then show ?thesis
        by (simp add: lies_within_def pp zs True)
    next
      case nosep: False
      with assms(1) at False pp have "root \<noteq> []" and "last root = CHR ''/''"
        by (auto simp: contained_def)
      then have root: "root = butlast root @ CHR ''/'' # []"
        by (metis append_butlast_last_id)
      have "segments root = segments (butlast root) @ segments []"
        by (subst root) (rule segments_slash_append)
      then have w: "walk [] (segments root) = walk [] (segments (butlast root))"
        by (simp add: walk_append)
      have pp': "pp = butlast root @ CHR ''/'' # zs"
        by (subst pp, subst root) simp
      from assms(2) have "prefix (walk [] (segments (butlast root)))
          (walk [] (segments (butlast root @ CHR ''/'' # zs)))"
        unfolding pp' by (rule walk_below)
      then show ?thesis
        by (simp add: lies_within_def w pp' [symmetric])
    qed
  qed
qed

text \<open>
  The trailing slash and the name of an index file add no segment \<open>..\<close>, when the name
  has none.
\<close>

lemma no_dotdot_append_name:
  assumes "x \<noteq> []" "last x = CHR ''/''" "''..'' \<notin> set (tl (segments x))"
    "''..'' \<notin> set (segments name)"
  shows "''..'' \<notin> set (tl (segments (x @ name)))"
proof -
  from assms(1,2) have x: "x = butlast x @ CHR ''/'' # []"
    by (metis append_butlast_last_id)
  have "segments x = segments (butlast x) @ segments []"
    by (subst x) (rule segments_slash_append)
  then have a: "tl (segments x) = tl (segments (butlast x)) @ [[]]"
    using segments_nonempty [of "butlast x"] by simp
  have "x @ name = butlast x @ CHR ''/'' # name"
    by (subst x) simp
  then have "segments (x @ name) = segments (butlast x) @ segments name"
    by (simp only: segments_slash_append)
  then have "tl (segments (x @ name)) = tl (segments (butlast x)) @ segments name"
    using segments_nonempty [of "butlast x"] by simp
  with assms(3,4) a show ?thesis
    by simp
qed

lemma no_dotdot_ensure_slash:
  assumes "''..'' \<notin> set (tl (segments x))"
  shows "''..'' \<notin> set (tl (segments (ensure_slash x)))"
proof (cases "last x \<noteq> CHR ''/''")
  case False
  with assms show ?thesis
    by (simp add: ensure_slash_def)
next
  case True
  have "segments (x @ CHR ''/'' # []) = segments x @ segments []"
    by (rule segments_slash_append)
  then have "tl (segments (x @ CHR ''/'' # [])) = tl (segments x) @ [[]]"
    using segments_nonempty [of x] by simp
  with assms True show ?thesis
    by (simp add: ensure_slash_def)
qed

text \<open>
  In the default mode of \<open>canonpath\<close>, when the document root followed by the decoded
  path has at most \<open>PATH_MAX - 2\<close> bytes and no name of an index file has a segment \<open>..\<close>,
  every result of \<open>uh_path_lookup\<close>, redirected or not, lies within the document root:
  for every URL with \<open>../\<close> segments, repeated separators or escaped separators, and every
  decoder.
\<close>

lemma lookup_lies_within:
  assumes res: "uh_path_lookup e cf index_files cl (Some url) = (Some (p, phys), cl')"
    and mode: "\<not> no_symlinks cf"
    and dec: "url_decode_path e
                (int (sizeof_uh_buf e) - int (length (cstr (docroot cf))) - 1) (cstr url) = Some d"
    and fits: "length (cstr (docroot cf) @ cstr d) + 2 \<le> PATH_MAX e"
    and idx: "\<forall>name\<in>set index_files. ''..'' \<notin> set (segments name)"
  shows "lies_within (cstr (docroot cf)) phys"
proof -
  define root where "root = cstr (docroot cf)"
  define uh_buf where "uh_buf = root @ cstr d"
  define pp where "pp = snd (canonpath e cf uh_buf)"
  have len: "length uh_buf \<le> PATH_MAX e - 2" and lt: "length uh_buf < PATH_MAX e"
    using fits by (simp_all add: uh_buf_def root_def)
  have lc: "lookup_canon e cf uh_buf = (pp, [])"
    using lt by (simp add: lookup_canon_fits pp_def)
  have "lookup_stat e index_files cl root (url_query (cstr url))
          (length uh_buf \<noteq> 0 \<and> last uh_buf = CHR ''/'') pp [] = (Some (p, phys), cl')"
    using res dec lc
    by (simp add: uh_path_lookup_def Let_def root_def [symmetric] uh_buf_def [symmetric])
  from lookup_stat_shape [OF this] have
    ne: "pp \<noteq> []" and cmp: "strncmp_eq pp root (length root)"
    and nxt: "peek pp (length root) = NUL \<or> peek pp (length root) = CHR ''/''"
    and shape: "(phys = pp \<and> pi_phys p = Some phys)
           \<or> (phys = ensure_slash pp \<and> pi_phys p = None \<and> pi_redirected p)
           \<or> (\<exists>name. (name = [] \<or> name \<in> set index_files)
                 \<and> phys = ensure_slash pp @ name \<and> pi_phys p = Some phys)"
    by blast+
  have nul: "NUL \<notin> set pp"
    by (simp add: pp_def canonpath_NUL_free)
  have rootnul: "NUL \<notin> set root"
    by (simp add: root_def cstr_NUL_free)
  have bufnul: "NUL \<notin> set uh_buf"
    by (simp add: uh_buf_def root_def cstr_NUL_free)
  have c0: "contained root pp"
    using nul rootnul cmp nxt by (rule check_contained)
  have c1: "contained root (ensure_slash pp)"
    using c0 ne by (rule contained_ensure_slash)
  have es: "ensure_slash pp \<noteq> []" "last (ensure_slash pp) = CHR ''/''"
    using ensure_slash_last [OF ne] ne by (auto simp: ensure_slash_def)
  have c2: "contained root (ensure_slash pp @ name)" for name
    using c1 es by (rule contained_append)
  have n0: "''..'' \<notin> set (tl (segments pp))"
    unfolding pp_def using mode bufnul len by (rule canonpath_no_dotdot)
  have n1: "''..'' \<notin> set (tl (segments (ensure_slash pp)))"
    using n0 by (rule no_dotdot_ensure_slash)
  have n2: "''..'' \<notin> set (tl (segments (ensure_slash pp @ name)))"
    if "name = [] \<or> name \<in> set index_files" for name
  proof -
    from that idx have "''..'' \<notin> set (segments name)"
      by auto
    with es n1 show ?thesis
      by (intro no_dotdot_append_name)
  qed
  from shape consider "phys = pp" | "phys = ensure_slash pp"
    | name where "name = [] \<or> name \<in> set index_files" "phys = ensure_slash pp @ name"
    by blast
  then show ?thesis
  proof cases
    case 1
    with c0 n0 show ?thesis
      unfolding root_def by (simp add: contained_lies_within)
  next
    case 2
    with c1 n1 show ?thesis
      unfolding root_def by (simp add: contained_lies_within)
  next
    case 3
    with c2 [of name] n2 [of name] show ?thesis
      unfolding root_def by (simp add: contained_lies_within)
  qed
qed

text \<open>
  An instance: the URL \<open>/\<close> of the example installation resolves to the index file.
\<close>

lemma lookup_lies_within_index:
  "fst (uh_path_lookup example_env example_conf [''index.html''] example_client (Some ''/''))
     = Some (example_index, ''/www/index.html'')
   \<and> lies_within (cstr (docroot example_conf)) ''/www/index.html''"
proof -
  have f: "fst (uh_path_lookup example_env example_conf [''index.html''] example_client
                  (Some ''/'')) = Some (example_index, ''/www/index.html'')"
    by code_simp
  then have h: "uh_path_lookup example_env example_conf [''index.html''] example_client
                  (Some ''/'')
     = (Some (example_index, ''/www/index.html''),
        snd (uh_path_lookup example_env example_conf [''index.html''] example_client
               (Some ''/'')))"
    by (metis prod.collapse)
  have mode: "\<not> no_symlinks example_conf"
    by (simp add: example_conf_def)
  have dec: "url_decode_path example_env
               (int (sizeof_uh_buf example_env) - int (length (cstr (docroot example_conf))) - 1)
               (cstr ''/'') = Some ''/''"
    by code_simp
  have fits: "length (cstr (docroot example_conf) @ cstr ''/'') + 2 \<le> PATH_MAX example_env"
    by code_simp
  have idx: "\<forall>name\<in>set [''index.html'']. ''..'' \<notin> set (segments name)"
    by code_simp
  from f lookup_lies_within [OF h mode dec fits idx] show ?thesis
    by simp
qed

section \<open>A path that leaves the document root\<close>

text \<open>
  A run of slashes in front of a slash is skipped, one slash for each round of the loop.
\<close>

lemma canon_loop_slashes:
  "k \<le> n \<Longrightarrow> canon_loop n (replicate k (CHR ''/'') @ CHR ''/'' # rest) res
     = canon_loop (n - k) (CHR ''/'' # rest) res"
proof (induction k arbitrary: n)
  case 0
  then show ?case by simp
next
  case (Suc k)
  have pk: "peek (replicate k (CHR ''/'') @ CHR ''/'' # rest) 0 = CHR ''/''"
    by (cases k) (simp_all add: peek_def)
  from Suc.prems have n: "n \<noteq> 0" "k \<le> n - 1" by simp_all
  have "canon_loop n (replicate (Suc k) (CHR ''/'') @ CHR ''/'' # rest) res
      = canon_loop (n - 1) (replicate k (CHR ''/'') @ CHR ''/'' # rest) res"
    using n pk by (simp add: NUL_def)
  also have "\<dots> = canon_loop (n - 1 - k) (CHR ''/'' # rest) res"
    using n by (rule_tac Suc.IH)
  finally show ?case by simp
qed

text \<open>
  What \<open>canonpath\<close> makes of the document root followed by 4059 slashes and \<open>/..x\<close>.
\<close>

lemma vhost_canon:
  "snd (canonpath vhost_env vhost_conf
          (cstr (docroot vhost_conf) @ cstr (replicate 4059 (CHR ''/'') @ ''/..x'')))
     = ''/srv/www/vhosts/example.org/html/..''"
proof -
  have nul: "NUL \<notin> set (replicate 4059 (CHR ''/'') @ ''/..x'')"
    by (simp add: NUL_def)
  have root: "cstr (docroot vhost_conf) = ''/srv/www/vhosts/example.org/html''"
    by code_simp
  have a: "canon_loop 4094 (''/srv/www/vhosts/example.org/html'' @ R) []
      = canon_loop 4062 R ''/srv/www/vhosts/example.org/html''" for R
    by (simp add: peek_def NUL_def)
  have "canon_loop 4062 (replicate 4059 (CHR ''/'') @ CHR ''/'' # ''..x'')
          ''/srv/www/vhosts/example.org/html''
      = canon_loop (4062 - 4059) (CHR ''/'' # ''..x'') ''/srv/www/vhosts/example.org/html''"
    by (rule canon_loop_slashes) simp
  then have b: "canon_loop 4062 (replicate 4059 (CHR ''/'') @ ''/..x'')
          ''/srv/www/vhosts/example.org/html''
      = canon_loop 3 ''/..x'' ''/srv/www/vhosts/example.org/html''"
    by simp
  have c: "canon_loop 3 ''/..x'' ''/srv/www/vhosts/example.org/html''
      = ''/srv/www/vhosts/example.org/html/..''"
    by (simp add: peek_def NUL_def)
  have nos: "\<not> no_symlinks vhost_conf"
    by (simp add: vhost_conf_def)
  have pm: "PATH_MAX vhost_env - 2 = 4094"
    by (simp add: vhost_env_def example_env_def)
  have fin: "canon_finish ''/srv/www/vhosts/example.org/html/..''
      = ''/srv/www/vhosts/example.org/html/..''"
    by (simp add: canon_finish_def)
  show ?thesis
    by (simp only: canonpath_def nos if_False snd_conv pm root cstr_id [OF nul] a b c fin)
qed

text \<open>
  C1: the path of a result should never lie outside the document root. It does for a
  URL that reaches the bound of the loop in \<open>canonpath\<close>. Take the document root
  \<open>/srv/www/vhosts/example.org/html\<close> and the URL of 4059 slashes followed by \<open>/..x\<close>:
  \<open>uh_buf\<close> holds 4095 bytes, and \<open>x\<close> is the byte at \<open>path + PATH_MAX - 2\<close>, where the loop
  stops. The loop copies the root and skips the repeated slashes. At the last slash
  it reads \<open>..x\<close> ahead, which is no \<open>..\<close> segment, so it copies the slash and the two
  dots; then it stops in front of \<open>x\<close>. Now \<open>path_phys\<close> is the root followed by \<open>/..\<close>.
  It passes the test of the document root, \<open>stat\<close> finds the parent of the root, which
  is a directory, and the request has no trailing slash: \<open>uh_path_lookup\<close> returns a
  redirected result, \<open>path_phys\<close> holds the root followed by \<open>/../\<close>, and the \<open>Location\<close>
  sent is \<open>/../\<close>. The path has the form that the specification asks for, the root
  followed by a separator, and it lies outside the root: the walk along it ends in
  \<open>/srv/www/vhosts/example.org\<close>.
\<close>

theorem uh_path_lookup_leaves_root:
  "fst (uh_path_lookup vhost_env vhost_conf [''index.html''] example_client
          (Some (replicate 4059 (CHR ''/'') @ ''/..x'')))
     = Some (path_info_zero\<lparr>pi_stat := example_dir, pi_redirected := True\<rparr>,
             ''/srv/www/vhosts/example.org/html/../'')
   \<and> sent (snd (uh_path_lookup vhost_env vhost_conf [''index.html''] example_client
                  (Some (replicate 4059 (CHR ''/'') @ ''/..x''))))
     = [HttpHeader 302 ''Found'', UstreamPrintf (''Location: /../'' @ CRLF @ CRLF), RequestDone]
   \<and> within_root (cstr (docroot vhost_conf)) ''/srv/www/vhosts/example.org/html/../''
   \<and> \<not> lies_within (cstr (docroot vhost_conf)) ''/srv/www/vhosts/example.org/html/../''
   \<and> walk [] (segments ''/srv/www/vhosts/example.org/html/../'')
       = [''srv'', ''www'', ''vhosts'', ''example.org'']"
proof -
  define url where "url = replicate 4059 (CHR ''/'') @ ''/..x''"
  have nul: "NUL \<notin> set url"
    by (simp add: url_def NUL_def)
  have len: "length url = 4063"
    by (simp add: url_def)
  have root: "cstr (docroot vhost_conf) = ''/srv/www/vhosts/example.org/html''"
    by code_simp
  have other: "url \<noteq> ''/a%3Fb''"
  proof
    assume "url = ''/a%3Fb''"
    then have "length url = length ''/a%3Fb''"
      by (rule arg_cong)
    with len show False
      by simp
  qed
  have dec: "url_decode_path vhost_env
               (int (sizeof_uh_buf vhost_env) - int (length (cstr (docroot vhost_conf))) - 1)
               (cstr url) = Some url"
    using other
    by (simp add: cstr_id [OF nul] url_decode_path_def vhost_env_def example_env_def)
       (simp add: url_def)
  have fits: "length (cstr (docroot vhost_conf) @ cstr url) < PATH_MAX vhost_env"
    by (simp add: root cstr_id [OF nul] len vhost_env_def example_env_def)
  have noslash: "cstr (docroot vhost_conf) @ cstr url = []
      \<or> last (cstr (docroot vhost_conf) @ cstr url) \<noteq> CHR ''/''"
    by (simp add: cstr_id [OF nul]) (simp add: url_def)
  have canon: "snd (canonpath vhost_env vhost_conf (cstr (docroot vhost_conf) @ cstr url))
      = ''/srv/www/vhosts/example.org/html/..''"
    unfolding url_def by (rule vhost_canon)
  have cmp: "strncmp_eq ''/srv/www/vhosts/example.org/html/..'' (cstr (docroot vhost_conf))
               (length (cstr (docroot vhost_conf)))"
    by code_simp
  have nxt: "peek ''/srv/www/vhosts/example.org/html/..'' (length (cstr (docroot vhost_conf)))
               = NUL
      \<or> peek ''/srv/www/vhosts/example.org/html/..'' (length (cstr (docroot vhost_conf)))
               = CHR ''/''"
    by code_simp
  have st: "uh_stat vhost_env ''/srv/www/vhosts/example.org/html/..'' = Some example_dir"
    by code_simp
  have reg: "st_mode example_dir AND S_IFREG = 0"
    by code_simp
  have isdir: "st_mode example_dir AND S_IFDIR \<noteq> 0"
    by code_simp
  have q: "url_query (cstr url) = None"
    by (simp add: cstr_id [OF nul] url_query_def) (simp add: url_def)
  have slash: "ensure_slash ''/srv/www/vhosts/example.org/html/..''
      = ''/srv/www/vhosts/example.org/html/../''"
    by code_simp
  have sent0: "sent example_client = []"
    by (simp add: example_client_def)
  have look: "uh_path_lookup vhost_env vhost_conf [''index.html''] example_client (Some url) =
      (Some (path_info_zero\<lparr>pi_stat := example_dir, pi_redirected := True\<rparr>,
             ''/srv/www/vhosts/example.org/html/../''),
       example_client\<lparr>sent :=
         [HttpHeader 302 ''Found'', UstreamPrintf (''Location: /../'' @ CRLF @ CRLF),
          RequestDone]\<rparr>)"
    using lookup_redirect [OF dec fits noslash canon cmp nxt st reg isdir,
            of "[''index.html'']" example_client]
    by (simp add: q slash root sent0 path_info_zero_def)
  have w1: "within_root (cstr (docroot vhost_conf)) ''/srv/www/vhosts/example.org/html/../''"
    by code_simp
  have w2: "\<not> lies_within (cstr (docroot vhost_conf)) ''/srv/www/vhosts/example.org/html/../''"
    by code_simp
  have w3: "walk [] (segments ''/srv/www/vhosts/example.org/html/../'')
       = [''srv'', ''www'', ''vhosts'', ''example.org'']"
    by code_simp
  have f: "fst (uh_path_lookup vhost_env vhost_conf [''index.html''] example_client (Some url))
      = Some (path_info_zero\<lparr>pi_stat := example_dir, pi_redirected := True\<rparr>,
              ''/srv/www/vhosts/example.org/html/../'')"
    by (simp only: look fst_conv)
  have s: "sent (snd (uh_path_lookup vhost_env vhost_conf [''index.html''] example_client
                        (Some url)))
      = [HttpHeader 302 ''Found'', UstreamPrintf (''Location: /../'' @ CRLF @ CRLF),
         RequestDone]"
    by (simp only: look snd_conv) simp
  from f [unfolded url_def] s [unfolded url_def] w1 w2 w3 show ?thesis
    by (intro conjI)
qed

end
